theory Spec2Isabelle
  imports Main "HOL-Library.Word"
begin

section \<open>The growable byte buffer of code/buffer/buffer.cpp\<close>

text \<open>
  The class \<open>Buffer\<close> owns a \<open>std::vector<char>\<close> and two cursors of type \<open>size_t\<close>.
  The model keeps the machine arithmetic of the source: \<open>size_t\<close> is a 64-bit word whose
  \<open>+\<close> and \<open>-\<close> wrap around, \<open>ssize_t\<close> is the same 64 bits read in two's complement
  (\<open>sint\<close>), and \<open>int\<close> is a 32-bit word. A pointer into the store is the offset from
  \<open>BeginPtr_()\<close>. The members \<open>buffer_\<close>, \<open>readPos_\<close>, \<open>writePos_\<close> and the functions
  \<open>BeginPtr_\<close>, \<open>MakeSpace_\<close> lose their trailing underscore, which a constant's name
  cannot end with.
\<close>

type_synonym size_t = "64 word"
type_synonym ssize_t = "64 word"

text \<open>
  What ends a call without a result: a failed \<open>assert\<close>, the \<open>std::length_error\<close> of a
  vector asked for more than \<open>max_size()\<close> elements, and an access outside the memory
  a pointer refers to (undefined behaviour in the source).
\<close>

datatype fault = AssertFail | LengthError | OutOfBounds

text \<open>
  Modelled from the spec: the class declaration (\<open>buffer.h\<close>) is not among the sources, so
  the types of the three members are taken from the data model of the specification.
  \<open>buffer_\<close> is the contiguous, resizable sequence of bytes (the source calls \<open>size\<close>,
  \<open>resize\<close> and \<open>begin\<close> on it, the interface of \<open>std::vector<char>\<close>); \<open>readPos_\<close> and
  \<open>writePos_\<close> are indices into it, of the type \<open>size_t\<close> that the accessors computed from
  them return.
\<close>

record Buffer =
  buffer :: string
  readPos :: size_t
  writePos :: size_t

subsection \<open>The vector and the memory primitives\<close>

text \<open>\<open>std::vector<char>::max_size()\<close> on a 64-bit platform: \<open>PTRDIFF_MAX\<close>.\<close>

definition max_size :: nat where
  "max_size = 2 ^ 63 - 1"

text \<open>\<open>buffer_.size()\<close>, as the \<open>size_t\<close> the source computes with.\<close>

definition vsize :: "Buffer \<Rightarrow> size_t" where
  "vsize b = word_of_nat (length (buffer b))"

text \<open>
  \<open>buffer_.resize(n)\<close>: throws beyond \<open>max_size()\<close>, cuts the tail off when \<open>n\<close> is
  smaller than the size, and value-initialises (zeroes) the new elements otherwise.
\<close>

definition resize :: "string \<Rightarrow> size_t \<Rightarrow> fault + string" where
  "resize v n =
     (if max_size < unat n then Inl LengthError
      else Inr (take (unat n) v @ replicate (unat n - length v) (CHR 0x00)))"

text \<open>
  \<open>std::copy(first, last, d)\<close> is the loop \<open>while (first != last) *d++ = *first++\<close>.
  \<open>copy_in\<close> is that loop when the source range is memory outside the store (its bytes
  are the list \<open>src\<close>); \<open>copy_self\<close> is the loop when the source range
  \<open>[first, lim)\<close> lies in the store that is being written, so that a byte written
  early may be read later.
\<close>

fun copy_in :: "string \<Rightarrow> string \<Rightarrow> nat \<Rightarrow> string" where
  "copy_in [] v d = v"
| "copy_in (c # src) v d = copy_in src (v[d := c]) (Suc d)"

function copy_self :: "string \<Rightarrow> nat \<Rightarrow> nat \<Rightarrow> nat \<Rightarrow> string" where
  "copy_self v first lim d =
     (if first < lim then copy_self (v[d := v ! first]) (Suc first) lim (Suc d) else v)"
  by pat_completeness auto
termination
  by (relation "measure (\<lambda>(v, first, lim, d). lim - first)") auto

declare copy_self.simps [simp del]

text \<open>\<open>bzero(p, n)\<close> on the store, \<open>p\<close> being its first byte.\<close>

definition bzero :: "string \<Rightarrow> nat \<Rightarrow> string" where
  "bzero v n = replicate (min n (length v)) (CHR 0x00) @ drop n v"

text \<open>
  Reading \<open>n\<close> bytes at offset \<open>p\<close> of the store, as \<open>std::string(p, n)\<close> and
  \<open>write(fd, p, n)\<close> do. A range that leaves the store is undefined behaviour.
\<close>

definition mem_read :: "string \<Rightarrow> size_t \<Rightarrow> size_t \<Rightarrow> fault + string" where
  "mem_read v p n =
     (if unat p + unat n \<le> length v then Inr (take (unat n) (drop (unat p) v))
      else Inl OutOfBounds)"

text \<open>
  Storing the bytes \<open>src\<close> at offset \<open>p\<close> of the store, as the kernel does with the bytes
  it delivers into an \<open>iovec\<close>. Storing no byte touches no memory; a range that leaves
  the store is undefined behaviour.
\<close>

definition mem_write :: "string \<Rightarrow> size_t \<Rightarrow> string \<Rightarrow> fault + string" where
  "mem_write v p src =
     (if src = [] then Inr v
      else if unat p + length src \<le> length v then Inr (copy_in src v (unat p))
      else Inl OutOfBounds)"

subsection \<open>Construction and the capacity queries\<close>

text \<open>
  \<open>Buffer(int initBuffersize)\<close>: the \<open>int\<close> is converted to \<open>size_t\<close> (sign extension)
  for the vector's constructor, which throws beyond \<open>max_size()\<close> and zeroes its elements.
\<close>

definition Buffer :: "32 word \<Rightarrow> fault + Buffer" where
  "Buffer initBuffersize =
     (let n = (scast initBuffersize :: size_t)
      in if max_size < unat n then Inl LengthError
         else Inr \<lparr>buffer = replicate (unat n) (CHR 0x00), readPos = 0, writePos = 0\<rparr>)"

definition ReadableBytes :: "Buffer \<Rightarrow> size_t" where
  "ReadableBytes b = writePos b - readPos b"

definition WritableBytes :: "Buffer \<Rightarrow> size_t" where
  "WritableBytes b = vsize b - writePos b"

definition PrependableBytes :: "Buffer \<Rightarrow> size_t" where
  "PrependableBytes b = readPos b"

definition BeginPtr :: "Buffer \<Rightarrow> size_t" where
  "BeginPtr b = 0"

definition Peek :: "Buffer \<Rightarrow> size_t" where
  "Peek b = BeginPtr b + readPos b"

definition BeginWriteConst :: "Buffer \<Rightarrow> size_t" where
  "BeginWriteConst b = BeginPtr b + writePos b"

definition BeginWrite :: "Buffer \<Rightarrow> size_t" where
  "BeginWrite b = BeginPtr b + writePos b"

subsection \<open>Retrieving\<close>

definition Retrieve :: "Buffer \<Rightarrow> size_t \<Rightarrow> fault + Buffer" where
  "Retrieve b len =
     (if len \<le> ReadableBytes b then Inr (b\<lparr>readPos := readPos b + len\<rparr>)
      else Inl AssertFail)"

definition RetrieveUntil :: "Buffer \<Rightarrow> size_t \<Rightarrow> fault + Buffer" where
  "RetrieveUntil b end =
     (if Peek b \<le> end then Retrieve b (end - Peek b) else Inl AssertFail)"

definition RetrieveAll :: "Buffer \<Rightarrow> Buffer" where
  "RetrieveAll b =
     b\<lparr>buffer := bzero (buffer b) (unat (vsize b)), readPos := 0, writePos := 0\<rparr>"

definition RetrieveAllToStr :: "Buffer \<Rightarrow> fault + (string \<times> Buffer)" where
  "RetrieveAllToStr b =
     (case mem_read (buffer b) (Peek b) (ReadableBytes b) of
        Inl e \<Rightarrow> Inl e
      | Inr str \<Rightarrow> Inr (str, RetrieveAll b))"

subsection \<open>Writing\<close>

definition HasWritten :: "Buffer \<Rightarrow> size_t \<Rightarrow> Buffer" where
  "HasWritten b len = b\<lparr>writePos := writePos b + len\<rparr>"

text \<open>
  \<open>MakeSpace_(len)\<close>. The first branch resizes the vector to \<open>writePos_ + len + 1\<close>, a sum
  of \<open>size_t\<close> values. The second copies the readable bytes to the front of the store;
  the copy is undefined behaviour unless \<open>[readPos_, writePos_)\<close> is a range of the store.
\<close>

definition MakeSpace :: "Buffer \<Rightarrow> size_t \<Rightarrow> fault + Buffer" where
  "MakeSpace b len =
     (if WritableBytes b + PrependableBytes b < len then
        (case resize (buffer b) (writePos b + len + 1) of
           Inl e \<Rightarrow> Inl e
         | Inr v \<Rightarrow> Inr (b\<lparr>buffer := v\<rparr>))
      else
        (let readable = ReadableBytes b in
         if readPos b \<le> writePos b \<and> unat (writePos b) \<le> length (buffer b) then
           (let b1 = b\<lparr>buffer := copy_self (buffer b) (unat (BeginPtr b + readPos b))
                                    (unat (BeginPtr b + writePos b)) (unat (BeginPtr b))\<rparr>;
                b2 = b1\<lparr>readPos := 0\<rparr>;
                b3 = b2\<lparr>writePos := readPos b2 + readable\<rparr>
            in if readable = ReadableBytes b3 then Inr b3 else Inl AssertFail)
         else Inl OutOfBounds))"

definition EnsureWriteable :: "Buffer \<Rightarrow> size_t \<Rightarrow> fault + Buffer" where
  "EnsureWriteable b len =
     (case (if WritableBytes b < len then MakeSpace b len else Inr b) of
        Inl e \<Rightarrow> Inl e
      | Inr b1 \<Rightarrow> if len \<le> WritableBytes b1 then Inr b1 else Inl AssertFail)"

text \<open>
  \<open>Append(const char* str, size_t len)\<close>. The list \<open>str\<close> is the memory the pointer
  refers to, so the pointer is not null; reading \<open>len\<close> bytes needs that many there, and
  writing them needs that many between \<open>BeginWrite()\<close> and the end of the store.
\<close>

definition Append :: "Buffer \<Rightarrow> string \<Rightarrow> size_t \<Rightarrow> fault + Buffer" where
  "Append b str len =
     (case EnsureWriteable b len of
        Inl e \<Rightarrow> Inl e
      | Inr b1 \<Rightarrow>
          if unat len \<le> length str \<and> unat (BeginWrite b1) + unat len \<le> length (buffer b1) then
            Inr (HasWritten
                  (b1\<lparr>buffer := copy_in (take (unat len) str) (buffer b1) (unat (BeginWrite b1))\<rparr>)
                  len)
          else Inl OutOfBounds)"

text \<open>
  The overloads \<open>Append(const std::string& str)\<close> and \<open>Append(const void* data, size_t
  len)\<close> pass their bytes on. The overload \<open>Append(const Buffer& buff)\<close> is left out: it
  passes the pointer \<open>buff.Peek()\<close>, which may point into the very store that
  \<open>MakeSpace_\<close> moves before the copy, and a list of source bytes cannot express that.
\<close>

definition Append_string :: "Buffer \<Rightarrow> string \<Rightarrow> fault + Buffer" where
  "Append_string b str = Append b str (word_of_nat (length str))"

definition Append_void :: "Buffer \<Rightarrow> string \<Rightarrow> size_t \<Rightarrow> fault + Buffer" where
  "Append_void b data len = Append b data len"

subsection \<open>Transfers to and from a descriptor\<close>

text \<open>
  The descriptor is outside the program. One \<open>readv\<close> call is modelled by its outcome
  \<open>(len, err, data)\<close>: the value returned, the value of \<open>errno\<close> after the call, and the
  bytes the kernel delivered, which it stores in \<open>iov[0]\<close> (the writable tail of the store,
  \<open>writable\<close> bytes at \<open>writePos_\<close>) and then in \<open>iov[1]\<close> (the array \<open>buff\<close> on the stack).
  Of \<open>buff\<close> the model keeps the bytes written by the kernel; the rest of the array is
  uninitialised. \<open>saveErrno\<close> is the caller's error slot before the call; the result
  holds the buffer, the slot and the value returned.
\<close>

definition buff_size :: nat where
  "buff_size = 65535"

definition readv_ok :: "Buffer \<Rightarrow> ssize_t \<times> 32 word \<times> string \<Rightarrow> bool" where
  "readv_ok b rv =
     (case rv of (len, err, data) \<Rightarrow>
        if sint len < 0 then data = []
        else length data = unat len \<and> unat len \<le> unat (WritableBytes b) + buff_size)"

definition ReadFd ::
  "Buffer \<Rightarrow> 32 word \<Rightarrow> ssize_t \<times> 32 word \<times> string \<Rightarrow> fault + (Buffer \<times> 32 word \<times> ssize_t)" where
  "ReadFd b saveErrno rv =
     (case rv of (len, err, data) \<Rightarrow>
        let writable = WritableBytes b in
        case mem_write (buffer b) (BeginPtr b + writePos b) (take (unat writable) data) of
          Inl e \<Rightarrow> Inl e
        | Inr v \<Rightarrow>
            let b0 = b\<lparr>buffer := v\<rparr>;
                buff = drop (unat writable) data
            in if sint len < 0 then Inr (b0, err, len)
               else if len \<le> writable then
                 Inr (b0\<lparr>writePos := writePos b0 + len\<rparr>, saveErrno, len)
               else (case Append (b0\<lparr>writePos := vsize b0\<rparr>) buff (len - writable) of
                       Inl e \<Rightarrow> Inl e
                     | Inr b1 \<Rightarrow> Inr (b1, saveErrno, len)))"

text \<open>
  One \<open>write\<close> call is the function \<open>wr\<close> from the bytes offered to the value returned
  and the value of \<open>errno\<close> after the call.
\<close>

definition write_ok :: "string \<Rightarrow> ssize_t \<times> 32 word \<Rightarrow> bool" where
  "write_ok bytes r = (case r of (len, err) \<Rightarrow> sint len < 0 \<or> unat len \<le> length bytes)"

definition WriteFd ::
  "Buffer \<Rightarrow> 32 word \<Rightarrow> (string \<Rightarrow> ssize_t \<times> 32 word) \<Rightarrow> fault + (Buffer \<times> 32 word \<times> ssize_t)" where
  "WriteFd b saveErrno wr =
     (let readSize = ReadableBytes b in
      case mem_read (buffer b) (Peek b) readSize of
        Inl e \<Rightarrow> Inl e
      | Inr bytes \<Rightarrow>
          (case wr bytes of (len, err) \<Rightarrow>
             if sint len < 0 then Inr (b, err, len)
             else Inr (b\<lparr>readPos := readPos b + len\<rparr>, saveErrno, len)))"

subsection \<open>The data model's invariant and the readable bytes\<close>

text \<open>
  \<open>0 \<le> readPos_ \<le> writePos_ \<le> buffer_.size()\<close>, the first inequality being the type's,
  together with the vector's own bound on its size.
\<close>

definition Buffer_inv :: "Buffer \<Rightarrow> bool" where
  "Buffer_inv b \<longleftrightarrow>
     unat (readPos b) \<le> unat (writePos b) \<and> unat (writePos b) \<le> length (buffer b) \<and>
     length (buffer b) \<le> max_size"

text \<open>The bytes of \<open>[readPos_, writePos_)\<close>.\<close>

definition readable_bytes :: "Buffer \<Rightarrow> string" where
  "readable_bytes b =
     take (unat (writePos b) - unat (readPos b)) (drop (unat (readPos b)) (buffer b))"

subsection \<open>Callers\<close>

text \<open>
  A caller that invokes \<open>WriteFd\<close> again and again, once for each element of \<open>wrs\<close>
  (the behaviour of the descriptor at that call), and collects the values returned.
\<close>

fun WriteFd_repeat ::
  "Buffer \<Rightarrow> 32 word \<Rightarrow> (string \<Rightarrow> ssize_t \<times> 32 word) list \<Rightarrow>
   fault + (Buffer \<times> 32 word \<times> ssize_t list)" where
  "WriteFd_repeat b saveErrno [] = Inr (b, saveErrno, [])"
| "WriteFd_repeat b saveErrno (wr # wrs) =
     (case WriteFd b saveErrno wr of
        Inl e \<Rightarrow> Inl e
      | Inr (b1, e1, len) \<Rightarrow>
          (case WriteFd_repeat b1 e1 wrs of
             Inl e \<Rightarrow> Inl e
           | Inr (b2, e2, lens) \<Rightarrow> Inr (b2, e2, len # lens)))"

text \<open>The bytes retired by a sequence of returned values: a negative value retires none.\<close>

fun retired :: "ssize_t list \<Rightarrow> nat" where
  "retired [] = 0"
| "retired (len # lens) = (if sint len < 0 then 0 else unat len) + retired lens"

text \<open>
  One call of the public interface on an existing buffer, with its arguments; for the
  two transfers, the caller's error slot and what the descriptor does at that call.
\<close>

datatype call =
    Call_Retrieve size_t
  | Call_RetrieveUntil size_t
  | Call_RetrieveAll
  | Call_RetrieveAllToStr
  | Call_HasWritten size_t
  | Call_Append string size_t
  | Call_EnsureWriteable size_t
  | Call_ReadFd "32 word" "ssize_t \<times> 32 word \<times> string"
  | Call_WriteFd "32 word" "ssize_t \<times> 32 word"

fun do_call :: "Buffer \<Rightarrow> call \<Rightarrow> fault + Buffer" where
  "do_call b (Call_Retrieve len) = Retrieve b len"
| "do_call b (Call_RetrieveUntil end) = RetrieveUntil b end"
| "do_call b Call_RetrieveAll = Inr (RetrieveAll b)"
| "do_call b Call_RetrieveAllToStr =
     (case RetrieveAllToStr b of Inl e \<Rightarrow> Inl e | Inr (str, b') \<Rightarrow> Inr b')"
| "do_call b (Call_HasWritten len) = Inr (HasWritten b len)"
| "do_call b (Call_Append str len) = Append b str len"
| "do_call b (Call_EnsureWriteable len) = EnsureWriteable b len"
| "do_call b (Call_ReadFd saveErrno rv) =
     (case ReadFd b saveErrno rv of Inl e \<Rightarrow> Inl e | Inr (b', e', len) \<Rightarrow> Inr b')"
| "do_call b (Call_WriteFd saveErrno r) =
     (case WriteFd b saveErrno (\<lambda>bytes. r) of Inl e \<Rightarrow> Inl e | Inr (b', e', len) \<Rightarrow> Inr b')"

text \<open>
  The buffer states after each call of a sequence, up to the first call that does not
  return.
\<close>

fun states_after :: "Buffer \<Rightarrow> call list \<Rightarrow> Buffer list" where
  "states_after b [] = []"
| "states_after b (c # cs) =
     (case do_call b c of Inl e \<Rightarrow> [] | Inr b' \<Rightarrow> b' # states_after b' cs)"

text \<open>
  What the class leaves to its environment: \<open>HasWritten(len)\<close> is for a caller that has
  written \<open>len\<close> bytes into the writable tail; a length passed to \<open>EnsureWriteable\<close> is
  the size of something that exists, at most \<open>max_size()\<close>; \<open>write\<close> returns no more
  than the count it was given.
\<close>

fun honours :: "Buffer \<Rightarrow> call \<Rightarrow> bool" where
  "honours b (Call_HasWritten len) \<longleftrightarrow> len \<le> WritableBytes b"
| "honours b (Call_EnsureWriteable len) \<longleftrightarrow> unat len \<le> max_size"
| "honours b (Call_WriteFd saveErrno r) \<longleftrightarrow> write_ok (readable_bytes b) r"
| "honours b c \<longleftrightarrow> True"

fun all_honour :: "Buffer \<Rightarrow> call list \<Rightarrow> bool" where
  "all_honour b [] \<longleftrightarrow> True"
| "all_honour b (c # cs) \<longleftrightarrow>
     honours b c \<and> (case do_call b c of Inl e \<Rightarrow> True | Inr b' \<Rightarrow> all_honour b' cs)"

section \<open>The copy loops\<close>

lemma length_copy_in: "length (copy_in src v d) = length v"
  by (induction src arbitrary: v d) simp_all

lemma copy_in_eq:
  "d + length src \<le> length v \<Longrightarrow> copy_in src v d = take d v @ src @ drop (d + length src) v"
proof (induction src arbitrary: v d)
  case Nil
  then show ?case by simp
next
  case (Cons c src)
  have "copy_in (c # src) v d = copy_in src (v[d := c]) (Suc d)" by simp
  also have "\<dots> = take (Suc d) (v[d := c]) @ src @ drop (Suc d + length src) (v[d := c])"
    using Cons.prems by (intro Cons.IH) simp
  also have "take (Suc d) (v[d := c]) = take d v @ [c]"
    using Cons.prems by (simp add: take_Suc_conv_app_nth)
  also have "drop (Suc d + length src) (v[d := c]) = drop (d + length (c # src)) v"
    by simp
  finally show ?case by simp
qed

lemma length_copy_self: "length (copy_self v first lim d) = length v"
proof (induction v first lim d rule: copy_self.induct)
  case (1 v first lim d)
  then show ?case by (cases "first < lim") (simp_all add: copy_self.simps [of v])
qed

text \<open>
  Copying towards the front (\<open>d \<le> first\<close>) never reads a byte the loop has already
  written: position \<open>d + i\<close> receives the original byte at \<open>first + i\<close>.
\<close>

lemma copy_self_nth:
  "d \<le> first \<Longrightarrow> lim \<le> length v \<Longrightarrow> i < length v \<Longrightarrow>
   copy_self v first lim d ! i =
     (if d \<le> i \<and> i < d + (lim - first) then v ! (first + (i - d)) else v ! i)"
proof (induction v first lim d arbitrary: i rule: copy_self.induct)
  case (1 v first lim d)
  show ?case
  proof (cases "first < lim")
    case False
    then show ?thesis by (auto simp: copy_self.simps [of v])
  next
    case True
    let ?v = "v[d := v ! first]"
    have step: "copy_self v first lim d = copy_self ?v (Suc first) lim (Suc d)"
      using True by (simp add: copy_self.simps [of v])
    have ih: "copy_self ?v (Suc first) lim (Suc d) ! i =
        (if Suc d \<le> i \<and> i < Suc d + (lim - Suc first) then ?v ! (Suc first + (i - Suc d))
         else ?v ! i)"
      using "1.prems" True by (intro "1.IH") simp_all
    show ?thesis
      unfolding step ih using "1.prems" True
      by (auto simp: nth_list_update intro!: arg_cong [where f = "(!) v"])
  qed
qed

lemma copy_self_eq:
  assumes "d \<le> first" "first \<le> lim" "lim \<le> length v"
  shows "copy_self v first lim d =
           take d v @ take (lim - first) (drop first v) @ drop (d + (lim - first)) v"
proof (rule nth_equalityI)
  show "length (copy_self v first lim d) =
        length (take d v @ take (lim - first) (drop first v) @ drop (d + (lim - first)) v)"
    using assms by (simp add: length_copy_self)
next
  fix i assume "i < length (copy_self v first lim d)"
  then have i: "i < length v" by (simp add: length_copy_self)
  show "copy_self v first lim d ! i =
        (take d v @ take (lim - first) (drop first v) @ drop (d + (lim - first)) v) ! i"
    using assms i by (auto simp: copy_self_nth nth_append)
qed

text \<open>Unfolds the zero bytes of a concrete store, one at a time.\<close>

lemma replicate_unfold: "0 < n \<Longrightarrow> replicate n c = c # replicate (n - 1) c"
  by (cases n) simp_all

section \<open>Arithmetic of a buffer that satisfies the invariant\<close>

lemma max_size_lt: "max_size < 2 ^ 64"
  by (simp add: max_size_def)

lemma unat_vsize: "length (buffer b) \<le> max_size \<Longrightarrow> unat (vsize b) = length (buffer b)"
  unfolding vsize_def using max_size_lt by (simp add: unat_of_nat)

lemma inv_readable:
  "Buffer_inv b \<Longrightarrow> unat (ReadableBytes b) = unat (writePos b) - unat (readPos b)"
  unfolding Buffer_inv_def ReadableBytes_def by (simp add: unat_sub word_le_nat_alt)

lemma inv_writable:
  "Buffer_inv b \<Longrightarrow> unat (WritableBytes b) = length (buffer b) - unat (writePos b)"
proof -
  assume a: "Buffer_inv b"
  then have "unat (vsize b) = length (buffer b)" by (simp add: Buffer_inv_def unat_vsize)
  moreover from this a have "writePos b \<le> vsize b"
    by (simp add: word_le_nat_alt Buffer_inv_def)
  ultimately show ?thesis by (simp add: WritableBytes_def unat_sub)
qed

lemma readable_bytes_length:
  "Buffer_inv b \<Longrightarrow> length (readable_bytes b) = unat (ReadableBytes b)"
  by (auto simp: readable_bytes_def inv_readable Buffer_inv_def)

lemma mem_read_readable:
  "Buffer_inv b \<Longrightarrow> mem_read (buffer b) (Peek b) (ReadableBytes b) = Inr (readable_bytes b)"
  by (simp add: mem_read_def Peek_def BeginPtr_def inv_readable readable_bytes_def Buffer_inv_def)

section \<open>Construction\<close>

lemma sint32_lt: "sint (c :: 32 word) < 2 ^ 31"
  using sint_lt [of c] by simp

lemma sint32_ge: "- (2 ^ 31) \<le> sint (c :: 32 word)"
  using sint_ge [of c] by simp

lemma uint_scast: "uint (scast (c :: 32 word) :: 64 word) = sint c mod 2 ^ 64"
  apply (subst scast_eq)
  apply (subst uint_word_of_int)
  apply simp
  done

lemma unat_scast_nonneg:
  assumes "0 \<le> sint (c :: 32 word)"
  shows "unat (scast c :: 64 word) = nat (sint c)"
proof -
  have "sint c < 2 ^ 64" using sint32_lt [of c] by simp
  with assms have "sint c mod 2 ^ 64 = sint c" by simp
  then have "uint (scast c :: 64 word) = sint c" by (simp only: uint_scast)
  then show ?thesis by (simp only: unat_eq_nat_uint)
qed

lemma unat_scast_neg:
  assumes "sint (c :: 32 word) < 0"
  shows "unat (scast c :: 64 word) = nat (sint c + 2 ^ 64)"
proof -
  have lo: "- (2 ^ 31) \<le> sint c" by (rule sint32_ge)
  with assms have "(sint c + 2 ^ 64) mod 2 ^ 64 = sint c + 2 ^ 64"
    by (intro mod_pos_pos_trivial) simp_all
  then have "sint c mod 2 ^ 64 = sint c + 2 ^ 64"
    by (simp del: mod_add_self2 add: mod_add_self2 [symmetric, of "sint c"])
  then have "uint (scast c :: 64 word) = sint c + 2 ^ 64" by (simp only: uint_scast)
  then show ?thesis by (simp only: unat_eq_nat_uint)
qed

lemma of_nat_scast:
  assumes "0 \<le> sint (c :: 32 word)"
  shows "(word_of_nat (nat (sint c)) :: 64 word) = scast c"
proof -
  have "unat (scast c :: 64 word) = nat (sint c)" using assms by (rule unat_scast_nonneg)
  then have "(word_of_nat (nat (sint c)) :: 64 word) = word_of_nat (unat (scast c :: 64 word))"
    by simp
  then show ?thesis by simp
qed

lemma Buffer_nonneg:
  assumes "0 \<le> sint c"
  shows "Buffer c =
           Inr \<lparr>buffer = replicate (nat (sint c)) (CHR 0x00), readPos = 0, writePos = 0\<rparr>"
proof -
  have "nat (sint c) \<le> max_size" using sint32_lt [of c] by (simp add: max_size_def)
  then show ?thesis using assms by (simp add: Buffer_def unat_scast_nonneg)
qed

text \<open>A negative \<open>int\<close> becomes a size beyond \<open>max_size()\<close>: no buffer is constructed.\<close>

lemma Buffer_neg:
  assumes "sint c < 0"
  shows "Buffer c = Inl LengthError"
proof -
  have "max_size < nat (sint c + 2 ^ 64)"
    using sint32_ge [of c] by (simp add: max_size_def)
  then show ?thesis using assms by (simp add: Buffer_def unat_scast_neg)
qed

text \<open>
  C10. For every initial capacity \<open>c\<close> (a non-negative \<open>int\<close>), the constructor returns
  a buffer with \<open>readPos_ = writePos_ = 0\<close>, hence with no readable and no prependable
  byte, and with \<open>WritableBytes() = c\<close>: the whole store, of \<open>c\<close> bytes, is writable.
\<close>

theorem Buffer_fresh:
  "0 \<le> sint c \<Longrightarrow>
   \<exists>b. Buffer c = Inr b \<and> readPos b = 0 \<and> writePos b = 0 \<and>
       ReadableBytes b = 0 \<and> PrependableBytes b = 0 \<and>
       WritableBytes b = scast c \<and> unat (WritableBytes b) = nat (sint c) \<and>
       length (buffer b) = nat (sint c) \<and> readable_bytes b = [] \<and> Buffer_inv b"
proof -
  assume c: "0 \<le> sint c"
  let ?b = "\<lparr>buffer = replicate (nat (sint c)) (CHR 0x00), readPos = 0, writePos = 0\<rparr>"
  have small: "nat (sint c) \<le> max_size" using sint32_lt [of c] by (simp add: max_size_def)
  then have inv: "Buffer_inv ?b" by (simp add: Buffer_inv_def)
  have size: "vsize ?b = scast c"
    using of_nat_scast [OF c] by (simp add: vsize_def)
  have "WritableBytes ?b = scast c" by (simp add: WritableBytes_def size)
  moreover have "unat (WritableBytes ?b) = nat (sint c)"
    using inv_writable [OF inv] by simp
  ultimately show ?thesis
    using Buffer_nonneg [OF c] inv
    by (simp add: ReadableBytes_def PrependableBytes_def readable_bytes_def)
qed

theorem Buffer_fresh_witness:
  "0 \<le> sint (1024 :: 32 word) \<and>
   (\<exists>b. Buffer 1024 = Inr b \<and> readPos b = 0 \<and> writePos b = 0 \<and>
        ReadableBytes b = 0 \<and> PrependableBytes b = 0 \<and>
        WritableBytes b = 1024 \<and> length (buffer b) = 1024)"
  using Buffer_fresh [of 1024] by auto

section \<open>Retrieving everything\<close>

text \<open>
  C8. \<open>RetrieveAllToStr()\<close> returns the readable bytes as a string and resets the buffer:
  afterwards \<open>readPos_ = writePos_ = 0\<close>, so \<open>ReadableBytes()\<close> and \<open>PrependableBytes()\<close>
  are 0, and every byte of the store, whose size is unchanged, is zero.
\<close>

theorem RetrieveAllToStr_full_reset:
  "Buffer_inv b \<Longrightarrow>
   \<exists>b'. RetrieveAllToStr b = Inr (readable_bytes b, b') \<and>
        ReadableBytes b' = 0 \<and> PrependableBytes b' = 0 \<and>
        readPos b' = 0 \<and> writePos b' = 0 \<and>
        buffer b' = replicate (length (buffer b)) (CHR 0x00)"
proof -
  assume inv: "Buffer_inv b"
  then have "unat (vsize b) = length (buffer b)"
    by (simp add: Buffer_inv_def unat_vsize)
  then show ?thesis
    using mem_read_readable [OF inv]
    by (simp add: RetrieveAllToStr_def RetrieveAll_def bzero_def ReadableBytes_def
        PrependableBytes_def)
qed

theorem RetrieveAllToStr_full_reset_witness:
  "Buffer_inv \<lparr>buffer = ''xhello..'', readPos = 1, writePos = 6\<rparr> \<and>
   (\<exists>b'. RetrieveAllToStr \<lparr>buffer = ''xhello..'', readPos = 1, writePos = 6\<rparr> =
          Inr (''hello'', b') \<and>
        ReadableBytes b' = 0 \<and> PrependableBytes b' = 0 \<and>
        buffer b' = [CHR 0x00, CHR 0x00, CHR 0x00, CHR 0x00, CHR 0x00, CHR 0x00, CHR 0x00, CHR 0x00])"
proof -
  let ?b = "\<lparr>buffer = ''xhello..'', readPos = 1, writePos = 6\<rparr>"
  have inv: "Buffer_inv ?b" by (simp add: Buffer_inv_def max_size_def)
  have rd: "readable_bytes ?b = ''hello''" by (simp add: readable_bytes_def)
  show ?thesis using RetrieveAllToStr_full_reset [OF inv] inv rd by auto
qed

section \<open>Making space\<close>

lemma inv_sum:
  assumes "Buffer_inv b"
  shows "unat (WritableBytes b + PrependableBytes b) =
           length (buffer b) - unat (writePos b) + unat (readPos b)"
proof -
  have "unat (WritableBytes b) + unat (PrependableBytes b) \<le> max_size"
    using assms inv_writable [OF assms] unfolding PrependableBytes_def Buffer_inv_def by arith
  then have "unat (WritableBytes b) + unat (PrependableBytes b) < 2 ^ LENGTH(64)"
    using max_size_lt by simp
  then have "unat (WritableBytes b + PrependableBytes b) =
             unat (WritableBytes b) + unat (PrependableBytes b)"
    by (simp only: unat_add_lem)
  then show ?thesis using inv_writable [OF assms] by (simp add: PrependableBytes_def)
qed

lemma unat_grow:
  assumes "unat w + unat len + 1 \<le> max_size"
  shows "unat (w + len + 1 :: 64 word) = unat w + unat len + 1"
proof -
  have a: "unat w + unat len < 2 ^ LENGTH(64)" using assms max_size_lt by simp
  then have b: "unat (w + len) = unat w + unat len" by (simp only: unat_add_lem)
  have "unat (w + len) + unat (1 :: 64 word) < 2 ^ LENGTH(64)"
    using assms max_size_lt b by simp
  then have "unat (w + len + 1) = unat (w + len) + unat (1 :: 64 word)"
    by (simp only: unat_add_lem)
  with b show ?thesis by simp
qed

lemma MakeSpace_grow:
  assumes inv: "Buffer_inv b"
    and less: "WritableBytes b + PrependableBytes b < len"
    and fits: "unat (writePos b) + unat len + 1 \<le> max_size"
  shows "MakeSpace b len =
           Inr (b\<lparr>buffer := buffer b @
                  replicate (unat (writePos b) + unat len + 1 - length (buffer b)) (CHR 0x00)\<rparr>)"
    and "length (buffer b) < unat (writePos b) + unat len + 1"
proof -
  have "length (buffer b) - unat (writePos b) + unat (readPos b) < unat len"
    using less inv_sum [OF inv] by (simp add: word_less_nat_alt)
  then show big: "length (buffer b) < unat (writePos b) + unat len + 1"
    using inv by (simp add: Buffer_inv_def)
  have n: "unat (writePos b + len + 1) = unat (writePos b) + unat len + 1"
    using fits by (rule unat_grow)
  show "MakeSpace b len =
           Inr (b\<lparr>buffer := buffer b @
                  replicate (unat (writePos b) + unat len + 1 - length (buffer b)) (CHR 0x00)\<rparr>)"
    using less fits big by (simp add: MakeSpace_def resize_def n)
qed

lemma MakeSpace_compact:
  assumes inv: "Buffer_inv b"
    and ge: "\<not> WritableBytes b + PrependableBytes b < len"
  shows "MakeSpace b len =
           Inr \<lparr>buffer = readable_bytes b @ drop (unat (ReadableBytes b)) (buffer b),
                readPos = 0, writePos = ReadableBytes b\<rparr>"
proof -
  have rw: "unat (readPos b) \<le> unat (writePos b)" "unat (writePos b) \<le> length (buffer b)"
    using inv by (simp_all add: Buffer_inv_def)
  have "copy_self (buffer b) (unat (readPos b)) (unat (writePos b)) 0 =
          take 0 (buffer b) @
          take (unat (writePos b) - unat (readPos b)) (drop (unat (readPos b)) (buffer b)) @
          drop (0 + (unat (writePos b) - unat (readPos b))) (buffer b)"
    using rw by (intro copy_self_eq) simp_all
  then have cp: "copy_self (buffer b) (unat (readPos b)) (unat (writePos b)) 0 =
          readable_bytes b @ drop (unat (ReadableBytes b)) (buffer b)"
    by (simp add: readable_bytes_def inv_readable [OF inv])
  show ?thesis
    using ge rw
    by (simp add: MakeSpace_def BeginPtr_def cp word_le_nat_alt ReadableBytes_def)
qed

lemma MakeSpace_grow_post:
  assumes inv: "Buffer_inv b"
    and less: "WritableBytes b + PrependableBytes b < len"
    and fits: "unat (writePos b) + unat len + 1 \<le> max_size"
    and res: "MakeSpace b len = Inr b'"
  shows "length (buffer b') = unat (writePos b) + unat len + 1"
    and "vsize b' = writePos b + len + 1"
    and "readPos b' = readPos b" and "writePos b' = writePos b"
    and "take (length (buffer b)) (buffer b') = buffer b"
    and "Buffer_inv b'"
    and "WritableBytes b' = len + 1" and "len \<le> WritableBytes b'"
    and "readable_bytes b' = readable_bytes b"
proof -
  note g = MakeSpace_grow [OF inv less fits]
  have b': "b' = b\<lparr>buffer := buffer b @
                  replicate (unat (writePos b) + unat len + 1 - length (buffer b)) (CHR 0x00)\<rparr>"
    using res g(1) by simp
  show len': "length (buffer b') = unat (writePos b) + unat len + 1"
    using g(2) by (simp add: b')
  show rp: "readPos b' = readPos b" and wp: "writePos b' = writePos b"
    and "take (length (buffer b)) (buffer b') = buffer b"
    by (simp_all add: b')
  show inv': "Buffer_inv b'"
    using inv fits len' by (simp add: Buffer_inv_def rp wp)
  have "unat (vsize b') = unat (writePos b + len + 1)"
    using unat_vsize [of b'] inv' len' unat_grow [OF fits] by (simp add: Buffer_inv_def)
  then show vs: "vsize b' = writePos b + len + 1" by (simp only: word_unat_eq_iff)
  show wr: "WritableBytes b' = len + 1" by (simp add: WritableBytes_def vs wp)
  have "unat (WritableBytes b') = unat len + 1"
    using inv_writable [OF inv'] len' by (simp add: wp)
  then show "len \<le> WritableBytes b'" by (simp add: word_le_nat_alt)
  show "readable_bytes b' = readable_bytes b"
    using inv by (simp add: readable_bytes_def b' Buffer_inv_def)
qed

lemma MakeSpace_compact_post:
  assumes inv: "Buffer_inv b"
    and ge: "\<not> WritableBytes b + PrependableBytes b < len"
    and res: "MakeSpace b len = Inr b'"
  shows "length (buffer b') = length (buffer b)"
    and "buffer b' = copy_self (buffer b) (unat (readPos b)) (unat (writePos b)) 0"
    and "readPos b' = 0" and "writePos b' = ReadableBytes b"
    and "Buffer_inv b'"
    and "WritableBytes b' = WritableBytes b + PrependableBytes b" and "len \<le> WritableBytes b'"
    and "ReadableBytes b' = ReadableBytes b"
    and "readable_bytes b' = readable_bytes b"
proof -
  have b': "b' = \<lparr>buffer = readable_bytes b @ drop (unat (ReadableBytes b)) (buffer b),
                readPos = 0, writePos = ReadableBytes b\<rparr>"
    using res MakeSpace_compact [OF inv ge] by simp
  have rw: "unat (readPos b) \<le> unat (writePos b)" "unat (writePos b) \<le> length (buffer b)"
    using inv by (simp_all add: Buffer_inv_def)
  have rl: "length (readable_bytes b) = unat (ReadableBytes b)"
    using inv by (rule readable_bytes_length)
  have rd: "unat (ReadableBytes b) = unat (writePos b) - unat (readPos b)"
    using inv by (rule inv_readable)
  show len': "length (buffer b') = length (buffer b)"
    using rw by (simp add: b' rl rd)
  show "buffer b' = copy_self (buffer b) (unat (readPos b)) (unat (writePos b)) 0"
    using rw by (simp add: b' copy_self_eq readable_bytes_def rd)
  show rp: "readPos b' = 0" and wp: "writePos b' = ReadableBytes b"
    by (simp_all add: b')
  show inv': "Buffer_inv b'"
    using inv rw len' by (simp add: Buffer_inv_def rp wp rd)
  show wr: "WritableBytes b' = WritableBytes b + PrependableBytes b"
    by (simp add: WritableBytes_def PrependableBytes_def vsize_def len' wp ReadableBytes_def)
  show "len \<le> WritableBytes b'" using ge by (simp add: wr)
  show "ReadableBytes b' = ReadableBytes b" by (simp add: ReadableBytes_def rp wp)
  have buf: "buffer b' = readable_bytes b @ drop (unat (ReadableBytes b)) (buffer b)"
    by (simp add: b')
  show "readable_bytes b' = readable_bytes b"
    unfolding readable_bytes_def [of b'] rp wp buf using rl by simp
qed

lemma MakeSpace_readable:
  "MakeSpace b len = Inr b' \<Longrightarrow> ReadableBytes b' = ReadableBytes b"
  by (auto simp: MakeSpace_def ReadableBytes_def Let_def split: if_splits sum.splits)

lemma EnsureWriteable_cases:
  "EnsureWriteable b len = Inr b' \<Longrightarrow>
   len \<le> WritableBytes b' \<and>
   (if WritableBytes b < len then MakeSpace b len = Inr b' else b' = b)"
  by (auto simp: EnsureWriteable_def split: if_splits sum.splits)

lemma EnsureWriteable_returns:
  assumes inv: "Buffer_inv b"
    and fits: "WritableBytes b + PrependableBytes b < len \<longrightarrow>
               unat (writePos b) + unat len + 1 \<le> max_size"
  shows "\<exists>b'. EnsureWriteable b len = Inr b' \<and> Buffer_inv b' \<and>
              readable_bytes b' = readable_bytes b"
proof (cases "WritableBytes b < len")
  case False
  then show ?thesis using inv by (simp add: EnsureWriteable_def)
next
  case short: True
  show ?thesis
  proof (cases "WritableBytes b + PrependableBytes b < len")
    case True
    with fits have f: "unat (writePos b) + unat len + 1 \<le> max_size" by simp
    from MakeSpace_grow(1) [OF inv True f] obtain b' where r: "MakeSpace b len = Inr b'"
      by simp
    from MakeSpace_grow_post [OF inv True f r] short r show ?thesis
      by (simp add: EnsureWriteable_def)
  next
    case False
    from MakeSpace_compact [OF inv False] obtain b' where r: "MakeSpace b len = Inr b'"
      by simp
    from MakeSpace_compact_post [OF inv False r] short r show ?thesis
      by (simp add: EnsureWriteable_def)
  qed
qed

text \<open>
  C9. Whenever \<open>EnsureWriteable(n)\<close> returns, \<open>WritableBytes() \<ge> n\<close> holds,
  \<open>ReadableBytes()\<close> is what it was, and a second \<open>EnsureWriteable(n)\<close> returns the very
  same buffer state: after two calls in a row \<open>WritableBytes() \<ge> n\<close> still holds and
  \<open>ReadableBytes()\<close> is unchanged. This holds for every state and every \<open>n\<close>. The call
  does return on every buffer that satisfies the invariant when \<open>writePos_ + n + 1\<close> is a
  size the vector can have.
\<close>

theorem EnsureWriteable_idempotent:
  "(\<forall>b1. EnsureWriteable b n = Inr b1 \<longrightarrow>
      n \<le> WritableBytes b1 \<and> ReadableBytes b1 = ReadableBytes b \<and>
      EnsureWriteable b1 n = Inr b1) \<and>
   (Buffer_inv b \<and> unat (writePos b) + unat n + 1 \<le> max_size \<longrightarrow>
      (\<exists>b1. EnsureWriteable b n = Inr b1))"
proof (intro conjI allI impI)
  fix b1 assume r: "EnsureWriteable b n = Inr b1"
  from EnsureWriteable_cases [OF r] show w: "n \<le> WritableBytes b1" by simp
  from EnsureWriteable_cases [OF r] show "ReadableBytes b1 = ReadableBytes b"
    by (auto simp: MakeSpace_readable split: if_splits)
  from w have "\<not> WritableBytes b1 < n" by simp
  with w show "EnsureWriteable b1 n = Inr b1"
    by (simp add: EnsureWriteable_def)
next
  assume "Buffer_inv b \<and> unat (writePos b) + unat n + 1 \<le> max_size"
  then show "\<exists>b1. EnsureWriteable b n = Inr b1"
    using EnsureWriteable_returns [of b n] by blast
qed

text \<open>
  The policy of \<open>MakeSpace_\<close> where the sum \<open>writePos_ + len + 1\<close> is a size the vector
  can have (at most \<open>max_size()\<close>, so that it does not wrap either). On a buffer that
  satisfies the invariant, with \<open>WritableBytes() < len\<close>: if
  \<open>WritableBytes() + PrependableBytes() < len\<close> the store is resized to
  \<open>writePos_ + len + 1\<close> bytes, keeping its old bytes and both cursors; otherwise
  \<open>[readPos_, writePos_)\<close> is copied to offset 0 of the same storage, \<open>readPos_ = 0\<close> and
  \<open>writePos_\<close> = the readable length. In both branches \<open>WritableBytes() \<ge> len\<close>
  afterwards.
\<close>

lemma MakeSpace_policy:
  assumes inv: "Buffer_inv b"
    and short: "WritableBytes b < len"
    and fits: "WritableBytes b + PrependableBytes b < len \<longrightarrow>
               unat (writePos b) + unat len + 1 \<le> max_size"
  shows "\<exists>b'. MakeSpace b len = Inr b' \<and>
           (if WritableBytes b + PrependableBytes b < len
            then length (buffer b') = unat (writePos b) + unat len + 1 \<and>
                 vsize b' = writePos b + len + 1 \<and>
                 take (length (buffer b)) (buffer b') = buffer b \<and>
                 readPos b' = readPos b \<and> writePos b' = writePos b
            else length (buffer b') = length (buffer b) \<and>
                 buffer b' = copy_self (buffer b) (unat (readPos b)) (unat (writePos b)) 0 \<and>
                 take (unat (ReadableBytes b)) (buffer b') = readable_bytes b \<and>
                 readPos b' = 0 \<and> writePos b' = ReadableBytes b) \<and>
           len \<le> WritableBytes b' \<and> unat len \<le> length (buffer b') - unat (writePos b')"
proof (cases "WritableBytes b + PrependableBytes b < len")
  case True
  with fits have f: "unat (writePos b) + unat len + 1 \<le> max_size" by simp
  from MakeSpace_grow(1) [OF inv True f] obtain b' where r: "MakeSpace b len = Inr b'"
    by simp
  note p = MakeSpace_grow_post [OF inv True f r]
  have "unat len \<le> length (buffer b') - unat (writePos b')"
    by (simp add: p(1) p(4))
  with True r p show ?thesis by simp
next
  case False
  from MakeSpace_compact [OF inv False] obtain b' where r: "MakeSpace b len = Inr b'"
    by simp
  note p = MakeSpace_compact_post [OF inv False r]
  have "unat len \<le> unat (WritableBytes b')"
    using p(7) by (simp add: word_le_nat_alt)
  then have w: "unat len \<le> length (buffer b') - unat (writePos b')"
    using inv_writable [OF p(5)] by simp
  have "take (unat (ReadableBytes b)) (buffer b') = readable_bytes b"
    using MakeSpace_compact [OF inv False] r readable_bytes_length [OF inv] by auto
  with False r p w show ?thesis by simp
qed

text \<open>
  Under the same bound \<open>EnsureWriteable(len)\<close> returns and preserves the payload \<open>R\<close>:
  \<open>ReadableBytes()\<close> is unchanged, the bytes at \<open>Peek()\<close> for that length are \<open>R\<close>, and
  \<open>WritableBytes() \<ge> len\<close>, after the compaction (same storage, \<open>readPos_ = 0\<close>) as after
  the resize (the store has \<open>writePos_ + len + 1\<close> bytes).
\<close>

lemma EnsureWriteable_preserves_payload:
  assumes inv: "Buffer_inv b"
    and fits: "WritableBytes b + PrependableBytes b < len \<longrightarrow>
               unat (writePos b) + unat len + 1 \<le> max_size"
  shows "\<exists>b'. EnsureWriteable b len = Inr b' \<and>
           ReadableBytes b' = ReadableBytes b \<and>
           mem_read (buffer b') (Peek b') (ReadableBytes b') = Inr (readable_bytes b) \<and>
           len \<le> WritableBytes b' \<and> unat len \<le> length (buffer b') - unat (writePos b') \<and>
           (WritableBytes b < len \<and> \<not> WritableBytes b + PrependableBytes b < len \<longrightarrow>
              readPos b' = 0 \<and> length (buffer b') = length (buffer b)) \<and>
           (WritableBytes b + PrependableBytes b < len \<longrightarrow>
              length (buffer b') = unat (writePos b) + unat len + 1)"
proof -
  from EnsureWriteable_returns [OF inv fits] obtain b' where
    r: "EnsureWriteable b len = Inr b'" and inv': "Buffer_inv b'"
    and rb: "readable_bytes b' = readable_bytes b"
    by blast
  note c = EnsureWriteable_cases [OF r]
  have rd: "ReadableBytes b' = ReadableBytes b"
    using c by (auto simp: MakeSpace_readable split: if_splits)
  have mr: "mem_read (buffer b') (Peek b') (ReadableBytes b') = Inr (readable_bytes b)"
    using mem_read_readable [OF inv'] rb by simp
  have "unat len \<le> unat (WritableBytes b')" using c by (simp add: word_le_nat_alt)
  then have w: "unat len \<le> length (buffer b') - unat (writePos b')"
    using inv_writable [OF inv'] by simp
  have cmp: "readPos b' = 0 \<and> length (buffer b') = length (buffer b)"
    if "WritableBytes b < len" "\<not> WritableBytes b + PrependableBytes b < len"
    using c that MakeSpace_compact_post(1,3) [OF inv that(2)] by simp
  have grw: "length (buffer b') = unat (writePos b) + unat len + 1"
    if big: "WritableBytes b + PrependableBytes b < len"
  proof -
    have "WritableBytes b \<le> WritableBytes b + PrependableBytes b"
      using inv_sum [OF inv] inv_writable [OF inv] by (simp add: word_le_nat_alt)
    with big have "WritableBytes b < len" by simp
    with c have "MakeSpace b len = Inr b'" by simp
    with fits big show ?thesis using MakeSpace_grow_post(1) [OF inv big] by simp
  qed
  from r rd mr c w cmp grw show ?thesis by auto
qed

lemmas eval_defs = MakeSpace_def EnsureWriteable_def WritableBytes_def PrependableBytes_def
  ReadableBytes_def vsize_def resize_def max_size_def BeginPtr_def Buffer_inv_def
  readable_bytes_def mem_read_def Peek_def copy_self.simps

theorem EnsureWriteable_idempotent_witness:
  "Buffer_inv \<lparr>buffer = ''abcd'', readPos = 2, writePos = 4\<rparr> \<and>
   EnsureWriteable \<lparr>buffer = ''abcd'', readPos = 2, writePos = 4\<rparr> 3 =
     Inr \<lparr>buffer = ''abcd'' @ replicate 4 (CHR 0x00), readPos = 2, writePos = 4\<rparr> \<and>
   EnsureWriteable \<lparr>buffer = ''abcd'' @ replicate 4 (CHR 0x00), readPos = 2, writePos = 4\<rparr> 3 =
     Inr \<lparr>buffer = ''abcd'' @ replicate 4 (CHR 0x00), readPos = 2, writePos = 4\<rparr> \<and>
   3 \<le> WritableBytes \<lparr>buffer = ''abcd'' @ replicate 4 (CHR 0x00), readPos = 2, writePos = 4\<rparr> \<and>
   ReadableBytes \<lparr>buffer = ''abcd'' @ replicate 4 (CHR 0x00), readPos = 2, writePos = 4\<rparr> =
     ReadableBytes \<lparr>buffer = ''abcd'', readPos = 2, writePos = 4\<rparr>"
proof -
  let ?b = "\<lparr>buffer = ''abcd'', readPos = 2, writePos = 4\<rparr>"
  let ?b1 = "\<lparr>buffer = ''abcd'' @ replicate 4 (CHR 0x00), readPos = 2, writePos = 4\<rparr>"
  have inv: "Buffer_inv ?b" by (simp add: Buffer_inv_def max_size_def)
  have r: "EnsureWriteable ?b 3 = Inr ?b1" by (simp add: eval_defs)
  from EnsureWriteable_idempotent [of ?b 3] r
  have "3 \<le> WritableBytes ?b1 \<and> ReadableBytes ?b1 = ReadableBytes ?b \<and>
        EnsureWriteable ?b1 3 = Inr ?b1"
    by blast
  with inv r show ?thesis by simp
qed

lemma MakeSpace_policy_instance:
  "Buffer_inv \<lparr>buffer = ''abcd'', readPos = 2, writePos = 4\<rparr> \<and>
   WritableBytes \<lparr>buffer = ''abcd'', readPos = 2, writePos = 4\<rparr> < 2 \<and>
   MakeSpace \<lparr>buffer = ''abcd'', readPos = 2, writePos = 4\<rparr> 3 =
     Inr \<lparr>buffer = ''abcd'' @ replicate 4 (CHR 0x00), readPos = 2, writePos = 4\<rparr> \<and>
   MakeSpace \<lparr>buffer = ''abcd'', readPos = 2, writePos = 4\<rparr> 2 =
     Inr \<lparr>buffer = ''cdcd'', readPos = 0, writePos = 2\<rparr>"
proof -
  let ?b = "\<lparr>buffer = ''abcd'', readPos = 2, writePos = 4\<rparr>"
  have inv: "Buffer_inv ?b" by (simp add: Buffer_inv_def max_size_def)
  have s3: "WritableBytes ?b < 3" and s2: "WritableBytes ?b < 2"
    by (simp_all add: WritableBytes_def vsize_def)
  have f3: "WritableBytes ?b + PrependableBytes ?b < 3 \<longrightarrow>
            unat (writePos ?b) + unat (3 :: size_t) + 1 \<le> max_size"
    by (simp add: max_size_def)
  have f2: "WritableBytes ?b + PrependableBytes ?b < 2 \<longrightarrow>
            unat (writePos ?b) + unat (2 :: size_t) + 1 \<le> max_size"
    by (simp add: max_size_def)
  from MakeSpace_policy [OF inv s3 f3] MakeSpace_policy [OF inv s2 f2]
  show ?thesis
    by (simp add: eval_defs)
qed

lemma EnsureWriteable_preserves_payload_instance:
  "Buffer_inv \<lparr>buffer = ''abcd'', readPos = 2, writePos = 4\<rparr> \<and>
   readable_bytes \<lparr>buffer = ''abcd'', readPos = 2, writePos = 4\<rparr> = ''cd'' \<and>
   EnsureWriteable \<lparr>buffer = ''abcd'', readPos = 2, writePos = 4\<rparr> 2 =
     Inr \<lparr>buffer = ''cdcd'', readPos = 0, writePos = 2\<rparr> \<and>
   mem_read ''cdcd'' 0 2 = Inr ''cd'' \<and>
   EnsureWriteable \<lparr>buffer = ''abcd'', readPos = 2, writePos = 4\<rparr> 3 =
     Inr \<lparr>buffer = ''abcd'' @ replicate 4 (CHR 0x00), readPos = 2, writePos = 4\<rparr> \<and>
   mem_read (''abcd'' @ replicate 4 (CHR 0x00)) 2 2 = Inr ''cd''"
proof -
  let ?b = "\<lparr>buffer = ''abcd'', readPos = 2, writePos = 4\<rparr>"
  have inv: "Buffer_inv ?b" by (simp add: Buffer_inv_def max_size_def)
  have f3: "WritableBytes ?b + PrependableBytes ?b < 3 \<longrightarrow>
            unat (writePos ?b) + unat (3 :: size_t) + 1 \<le> max_size"
    by (simp add: max_size_def)
  have f2: "WritableBytes ?b + PrependableBytes ?b < 2 \<longrightarrow>
            unat (writePos ?b) + unat (2 :: size_t) + 1 \<le> max_size"
    by (simp add: max_size_def)
  from EnsureWriteable_preserves_payload [OF inv f2] EnsureWriteable_preserves_payload [OF inv f3]
  show ?thesis
    by (simp add: eval_defs)
qed

subsection \<open>Where the sum wraps\<close>

text \<open>
  C3. The claim is about every \<open>len\<close>, and \<open>MakeSpace_\<close> misses the lengths for which the
  \<open>size_t\<close> sum \<open>writePos_ + len + 1\<close> wraps. After \<open>Buffer(4)\<close> and \<open>Append("abcd", 4)\<close>,
  with \<open>len = SIZE_MAX\<close>: \<open>WritableBytes() < len\<close> and
  \<open>WritableBytes() + PrependableBytes() < len\<close>, the sum is 4, \<open>resize(4)\<close> leaves the store
  as it is, and \<open>MakeSpace_\<close> returns with \<open>WritableBytes() = 0\<close>, not \<open>\<ge> len\<close>; the assertion
  of \<open>EnsureWriteable\<close> then fails.
\<close>

theorem MakeSpace_sum_wraps:
  "Buffer 4 = Inr \<lparr>buffer = replicate 4 (CHR 0x00), readPos = 0, writePos = 0\<rparr> \<and>
   Append \<lparr>buffer = replicate 4 (CHR 0x00), readPos = 0, writePos = 0\<rparr> ''abcd'' 4 =
     Inr \<lparr>buffer = ''abcd'', readPos = 0, writePos = 4\<rparr> \<and>
   Buffer_inv \<lparr>buffer = ''abcd'', readPos = 0, writePos = 4\<rparr> \<and>
   WritableBytes \<lparr>buffer = ''abcd'', readPos = 0, writePos = 4\<rparr> < 18446744073709551615 \<and>
   WritableBytes \<lparr>buffer = ''abcd'', readPos = 0, writePos = 4\<rparr> +
     PrependableBytes \<lparr>buffer = ''abcd'', readPos = 0, writePos = 4\<rparr> < 18446744073709551615 \<and>
   writePos \<lparr>buffer = ''abcd'', readPos = 0, writePos = 4\<rparr> + 18446744073709551615 + 1 =
     (4 :: size_t) \<and>
   MakeSpace \<lparr>buffer = ''abcd'', readPos = 0, writePos = 4\<rparr> 18446744073709551615 =
     Inr \<lparr>buffer = ''abcd'', readPos = 0, writePos = 4\<rparr> \<and>
   WritableBytes \<lparr>buffer = ''abcd'', readPos = 0, writePos = 4\<rparr> = 0 \<and>
   \<not> 18446744073709551615 \<le> WritableBytes \<lparr>buffer = ''abcd'', readPos = 0, writePos = 4\<rparr> \<and>
   EnsureWriteable \<lparr>buffer = ''abcd'', readPos = 0, writePos = 4\<rparr> 18446744073709551615 =
     Inl AssertFail"
  using Buffer_nonneg [of 4]
  by (simp add: eval_defs Append_def HasWritten_def BeginWrite_def replicate_unfold)


section \<open>Appending\<close>

lemma unat_add_fits:
  assumes "unat (a :: 64 word) + unat b \<le> max_size"
  shows "unat (a + b) = unat a + unat b"
proof -
  have "unat a + unat b < 2 ^ LENGTH(64)" using assms max_size_lt by simp
  then show ?thesis by (simp only: unat_add_lem)
qed

text \<open>What Append does to a buffer in which the bytes fit behind the write position.\<close>

lemma write_tail:
  assumes inv: "Buffer_inv b1"
    and room: "unat (writePos b1) + unat len \<le> length (buffer b1)"
    and src: "unat len \<le> length str"
  defines "b' \<equiv> HasWritten
         (b1\<lparr>buffer := copy_in (take (unat len) str) (buffer b1) (unat (BeginWrite b1))\<rparr>) len"
  shows "Buffer_inv b'"
    and "readable_bytes b' = readable_bytes b1 @ take (unat len) str"
    and "ReadableBytes b' = ReadableBytes b1 + len"
    and "readPos b' = readPos b1" and "writePos b' = writePos b1 + len"
    and "length (buffer b') = length (buffer b1)"
proof -
  let ?v = "buffer b1" and ?w = "unat (writePos b1)" and ?r = "unat (readPos b1)"
  let ?s = "take (unat len) str"
  have ls: "length ?s = unat len" using src by simp
  have rw: "?r \<le> ?w" "?w \<le> length ?v" "length ?v \<le> max_size"
    using inv by (simp_all add: Buffer_inv_def)
  have wl: "unat (writePos b1 + len) = ?w + unat len"
    using room rw by (intro unat_add_fits) simp
  have buf: "buffer b' = take ?w ?v @ ?s @ drop (?w + unat len) ?v"
    using room ls by (simp add: b'_def HasWritten_def BeginWrite_def BeginPtr_def copy_in_eq)
  show rp: "readPos b' = readPos b1" and wp: "writePos b' = writePos b1 + len"
    by (simp_all add: b'_def HasWritten_def)
  show len': "length (buffer b') = length (buffer b1)"
    by (simp add: b'_def HasWritten_def length_copy_in)
  show "Buffer_inv b'"
    using rw room by (simp add: Buffer_inv_def rp wp wl len')
  show "ReadableBytes b' = ReadableBytes b1 + len"
    by (simp add: ReadableBytes_def rp wp)
  have "readable_bytes b' = take (?w + unat len - ?r) (drop ?r (buffer b'))"
    by (simp add: readable_bytes_def rp wp wl)
  also have "\<dots> = take (?w - ?r) (drop ?r ?v) @ ?s"
    using rw room ls by (simp add: buf drop_take)
  finally show "readable_bytes b' = readable_bytes b1 @ take (unat len) str"
    by (simp add: readable_bytes_def)
qed

lemma Append_returns:
  assumes inv: "Buffer_inv b"
    and src: "unat len \<le> length str"
    and fits: "WritableBytes b + PrependableBytes b < len \<longrightarrow>
               unat (writePos b) + unat len + 1 \<le> max_size"
  shows "\<exists>b1 b'. EnsureWriteable b len = Inr b1 \<and> Append b str len = Inr b' \<and> Buffer_inv b' \<and>
           readable_bytes b' = readable_bytes b @ take (unat len) str \<and>
           ReadableBytes b' = ReadableBytes b + len \<and>
           readPos b' = readPos b1 \<and> writePos b' = writePos b1 + len"
proof -
  from EnsureWriteable_returns [OF inv fits] obtain b1 where
    r: "EnsureWriteable b len = Inr b1" and inv1: "Buffer_inv b1"
    and rb: "readable_bytes b1 = readable_bytes b"
    by blast
  note c = EnsureWriteable_cases [OF r]
  have rd: "ReadableBytes b1 = ReadableBytes b"
    using c by (auto simp: MakeSpace_readable split: if_splits)
  have "unat len \<le> unat (WritableBytes b1)" using c by (simp add: word_le_nat_alt)
  then have room: "unat (writePos b1) + unat len \<le> length (buffer b1)"
    using inv_writable [OF inv1] inv1 unfolding Buffer_inv_def by arith
  let ?b' = "HasWritten
         (b1\<lparr>buffer := copy_in (take (unat len) str) (buffer b1) (unat (BeginWrite b1))\<rparr>) len"
  have a: "Append b str len = Inr ?b'"
    using r room src by (simp add: Append_def BeginWrite_def BeginPtr_def)
  from write_tail [OF inv1 room src] a r rb rd show ?thesis by simp
qed

text \<open>
  C7, as amended. For every byte sequence \<open>B\<close> and every buffer that satisfies the
  invariant and has no readable byte (and, when the store has to grow, for which
  \<open>writePos_ + len + 1\<close> does not exceed \<open>max_size()\<close>): after appending \<open>B\<close>,
  \<open>ReadableBytes()\<close> is \<open>len(B)\<close>, the \<open>len(B)\<close> bytes at \<open>Peek()\<close> as a string are exactly
  \<open>B\<close>, as is the string \<open>RetrieveAllToStr()\<close> returns, and \<open>Retrieve(len(B))\<close> leaves
  \<open>ReadableBytes() = 0\<close> and \<open>len(B)\<close> more prependable bytes. The instance
  that follows the theorem is the concrete scenario: capacity 1024, \<open>Append("hello", 5)\<close>,
  \<open>Retrieve(5)\<close>.
\<close>

theorem Append_Retrieve_roundtrip:
  assumes inv: "Buffer_inv b" and empty: "ReadableBytes b = 0"
    and len: "unat len = length B"
    and fits: "WritableBytes b + PrependableBytes b < len \<longrightarrow>
               unat (writePos b) + unat len + 1 \<le> max_size"
  shows "\<exists>b1 b2 b3. Append b B len = Inr b1 \<and> ReadableBytes b1 = len \<and>
           mem_read (buffer b1) (Peek b1) len = Inr B \<and>
           Retrieve b1 len = Inr b2 \<and> ReadableBytes b2 = 0 \<and>
           PrependableBytes b2 = PrependableBytes b1 + len \<and>
           (len \<le> WritableBytes b \<longrightarrow> PrependableBytes b1 = PrependableBytes b) \<and>
           RetrieveAllToStr b1 = Inr (B, b3)"
proof -
  have src: "unat len \<le> length B" using len by simp
  from Append_returns [OF inv src fits] obtain b0 b1 where
    e: "EnsureWriteable b len = Inr b0" and a: "Append b B len = Inr b1"
    and inv1: "Buffer_inv b1"
    and rb: "readable_bytes b1 = readable_bytes b @ take (unat len) B"
    and rd: "ReadableBytes b1 = ReadableBytes b + len"
    and rp: "readPos b1 = readPos b0"
    by blast
  have "length (readable_bytes b) = 0"
    using readable_bytes_length [OF inv] empty by simp
  then have rb': "readable_bytes b1 = B" using rb len by simp
  have rd': "ReadableBytes b1 = len" using rd empty by simp
  have mr: "mem_read (buffer b1) (Peek b1) len = Inr B"
    using mem_read_readable [OF inv1] rb' rd' by simp
  have same: "PrependableBytes b1 = PrependableBytes b" if "len \<le> WritableBytes b"
  proof -
    from that have "\<not> WritableBytes b < len" by simp
    then have "b0 = b" using EnsureWriteable_cases [OF e] by simp
    then show ?thesis by (simp add: PrependableBytes_def rp)
  qed
  let ?b2 = "b1\<lparr>readPos := readPos b1 + len\<rparr>"
  have rt: "Retrieve b1 len = Inr ?b2" by (simp add: Retrieve_def rd')
  have "writePos b1 = len + readPos b1"
    using rd' by (simp add: ReadableBytes_def diff_eq_eq)
  then have r2: "ReadableBytes ?b2 = 0"
    by (simp add: ReadableBytes_def)
  have p2: "PrependableBytes ?b2 = PrependableBytes b1 + len"
    by (simp add: PrependableBytes_def)
  have "RetrieveAllToStr b1 = Inr (B, RetrieveAll b1)"
    using mr rd' by (simp add: RetrieveAllToStr_def)
  with a rd' mr rt r2 p2 same show ?thesis by blast
qed

theorem Append_Retrieve_roundtrip_witness:
  "\<exists>b0 b1 b2. Buffer 1024 = Inr b0 \<and> Append b0 ''hello'' 5 = Inr b1 \<and>
      ReadableBytes b1 = 5 \<and> mem_read (buffer b1) (Peek b1) 5 = Inr ''hello'' \<and>
      Retrieve b1 5 = Inr b2 \<and> ReadableBytes b2 = 0 \<and> PrependableBytes b2 = 5"
proof -
  let ?b0 = "\<lparr>buffer = replicate 1024 (CHR 0x00), readPos = 0, writePos = 0\<rparr>"
  have c: "Buffer 1024 = Inr ?b0" using Buffer_nonneg [of 1024] by simp
  have inv: "Buffer_inv ?b0" by (simp add: Buffer_inv_def max_size_def)
  have empty: "ReadableBytes ?b0 = 0" by (simp add: ReadableBytes_def)
  have len: "unat (5 :: size_t) = length ''hello''" by simp
  have w: "WritableBytes ?b0 = 1024" by (simp add: WritableBytes_def vsize_def)
  have fits: "WritableBytes ?b0 + PrependableBytes ?b0 < 5 \<longrightarrow>
              unat (writePos ?b0) + unat (5 :: size_t) + 1 \<le> max_size"
    by (simp add: w PrependableBytes_def)
  have p: "PrependableBytes ?b0 = 0" by (simp add: PrependableBytes_def)
  from Append_Retrieve_roundtrip [OF inv empty len fits] c w p show ?thesis
    by auto
qed

theorem Append_Retrieve_roundtrip_counterexample:
  "Buffer_inv \<lparr>buffer = [CHR ''x'', CHR 0x00, CHR 0x00, CHR 0x00], readPos = 0, writePos = 1\<rparr> \<and>
   Append \<lparr>buffer = [CHR ''x'', CHR 0x00, CHR 0x00, CHR 0x00], readPos = 0, writePos = 1\<rparr> ''y'' 1 =
     Inr \<lparr>buffer = [CHR ''x'', CHR ''y'', CHR 0x00, CHR 0x00], readPos = 0, writePos = 2\<rparr> \<and>
   mem_read [CHR ''x'', CHR ''y'', CHR 0x00, CHR 0x00]
     (Peek \<lparr>buffer = [CHR ''x'', CHR ''y'', CHR 0x00, CHR 0x00], readPos = 0, writePos = 2\<rparr>) 1 =
     Inr ''x'' \<and>
   Retrieve \<lparr>buffer = [CHR ''x'', CHR ''y'', CHR 0x00, CHR 0x00], readPos = 0, writePos = 2\<rparr> 1 =
     Inr \<lparr>buffer = [CHR ''x'', CHR ''y'', CHR 0x00, CHR 0x00], readPos = 1, writePos = 2\<rparr> \<and>
   ''x'' \<noteq> ''y''"
  by (simp add: eval_defs Append_def Retrieve_def HasWritten_def BeginWrite_def)

section \<open>Reading from a descriptor\<close>

text \<open>
  C6. If the \<open>readv\<close> call of \<open>ReadFd\<close> returns a negative value (and so has delivered
  no byte), the caller's error slot holds \<open>errno\<close>, the negative value is returned and
  the buffer is the one before the call: cursors and stored bytes alike.
\<close>

theorem ReadFd_failure:
  "sint len < 0 \<Longrightarrow> readv_ok b (len, err, data) \<Longrightarrow>
   ReadFd b saveErrno (len, err, data) = Inr (b, err, len)"
  by (simp add: ReadFd_def readv_ok_def mem_write_def)

theorem ReadFd_failure_witness:
  "sint (- 1 :: ssize_t) < 0 \<and>
   readv_ok \<lparr>buffer = ''ab..'', readPos = 0, writePos = 2\<rparr> (- 1, 11, []) \<and>
   ReadFd \<lparr>buffer = ''ab..'', readPos = 0, writePos = 2\<rparr> 0 (- 1, 11, []) =
     Inr (\<lparr>buffer = ''ab..'', readPos = 0, writePos = 2\<rparr>, 11, - 1)"
proof -
  let ?b = "\<lparr>buffer = ''ab..'', readPos = 0, writePos = 2\<rparr>"
  have neg: "sint (- 1 :: ssize_t) < 0" by simp
  have ok: "readv_ok ?b (- 1, 11, [])" by (simp add: readv_ok_def)
  from ReadFd_failure [OF neg ok, of 0] neg ok show ?thesis by simp
qed

text \<open>
  On a buffer that satisfies the invariant the first \<open>iovec\<close> is the writable tail of
  the store, so the kernel's bytes land inside the store.
\<close>

lemma ReadFd_unfold:
  assumes inv: "Buffer_inv b"
  shows "ReadFd b saveErrno (len, err, data) =
     (let writable = WritableBytes b;
          b0 = b\<lparr>buffer := copy_in (take (unat writable) data) (buffer b)
                                (unat (BeginPtr b + writePos b))\<rparr>;
          buff = drop (unat writable) data
      in if sint len < 0 then Inr (b0, err, len)
         else if len \<le> writable then Inr (b0\<lparr>writePos := writePos b0 + len\<rparr>, saveErrno, len)
         else (case Append (b0\<lparr>writePos := vsize b0\<rparr>) buff (len - writable) of
                 Inl e \<Rightarrow> Inl e
               | Inr b1 \<Rightarrow> Inr (b1, saveErrno, len)))"
proof -
  let ?src = "take (unat (WritableBytes b)) data"
  have "length ?src \<le> length (buffer b) - unat (writePos b)"
    using inv_writable [OF inv] by simp
  then have "unat (writePos b) + length ?src \<le> length (buffer b)"
    using inv unfolding Buffer_inv_def by arith
  then have "mem_write (buffer b) (BeginPtr b + writePos b) ?src =
               Inr (copy_in ?src (buffer b) (unat (BeginPtr b + writePos b)))"
    by (auto simp: mem_write_def BeginPtr_def)
  then show ?thesis by (simp add: ReadFd_def Let_def)
qed

lemma ReadFd_fits:
  assumes inv: "Buffer_inv b"
    and ok: "readv_ok b (len, err, data)"
    and nonneg: "0 \<le> sint len"
    and fit: "len \<le> WritableBytes b"
  shows "\<exists>b'. ReadFd b saveErrno (len, err, data) = Inr (b', saveErrno, len) \<and>
           Buffer_inv b' \<and> ReadableBytes b' = ReadableBytes b + len \<and>
           readable_bytes b' = readable_bytes b @ data \<and>
           writePos b' = writePos b + len \<and> readPos b' = readPos b \<and>
           length (buffer b') = length (buffer b)"
proof -
  have n: "length data = unat len"
    using ok nonneg by (simp add: readv_ok_def)
  have le: "unat len \<le> unat (WritableBytes b)"
    using fit by (simp add: word_le_nat_alt)
  then have room: "unat (writePos b) + unat len \<le> length (buffer b)"
    using inv_writable [OF inv] inv unfolding Buffer_inv_def by arith
  have src: "unat len \<le> length data" using n by simp
  let ?b' = "HasWritten
         (b\<lparr>buffer := copy_in (take (unat len) data) (buffer b) (unat (BeginWrite b))\<rparr>) len"
  have tk: "take (unat (WritableBytes b)) data = data" "take (unat len) data = data"
    using n le by simp_all
  have "ReadFd b saveErrno (len, err, data) = Inr (?b', saveErrno, len)"
    using nonneg fit
    by (simp add: ReadFd_unfold [OF inv] Let_def tk HasWritten_def BeginWrite_def)
  with write_tail [OF inv room src] tk show ?thesis by simp
qed

text \<open>
  More bytes than the tail holds: the buffer \<open>bm\<close> that \<open>Append\<close> is called on has the
  tail filled and \<open>writePos_\<close> at the end of the store.
\<close>

lemma ReadFd_tail_filled:
  assumes inv: "Buffer_inv b"
    and ok: "readv_ok b (len, err, data)"
    and nonneg: "0 \<le> sint len"
    and big: "\<not> len \<le> WritableBytes b"
  shows "\<exists>bm. ReadFd b saveErrno (len, err, data) =
              (case Append bm (drop (unat (WritableBytes b)) data) (len - WritableBytes b) of
                 Inl e \<Rightarrow> Inl e | Inr b1 \<Rightarrow> Inr (b1, saveErrno, len)) \<and>
           Buffer_inv bm \<and> readPos bm = readPos b \<and> writePos bm = vsize b \<and>
           unat (writePos bm) = length (buffer b) \<and> length (buffer bm) = length (buffer b) \<and>
           buffer bm = take (unat (writePos b)) (buffer b) @ take (unat (WritableBytes b)) data \<and>
           readable_bytes bm = readable_bytes b @ take (unat (WritableBytes b)) data \<and>
           ReadableBytes bm = ReadableBytes b + WritableBytes b \<and>
           unat (len - WritableBytes b) = length (drop (unat (WritableBytes b)) data) \<and>
           unat (len - WritableBytes b) \<le> buff_size"
proof -
  let ?w = "WritableBytes b"
  let ?m = "len - ?w"
  have n: "length data = unat len" and cap: "unat len \<le> unat ?w + buff_size"
    using ok nonneg by (simp_all add: readv_ok_def)
  have lt: "unat ?w < unat len" using big by (simp add: word_le_nat_alt)
  have w: "unat ?w = length (buffer b) - unat (writePos b)"
    using inv by (rule inv_writable)
  have rw: "unat (writePos b) \<le> length (buffer b)" "length (buffer b) \<le> max_size"
    using inv by (simp_all add: Buffer_inv_def)
  have room: "unat (writePos b) + unat ?w \<le> length (buffer b)"
    using w rw by simp
  have src: "unat ?w \<le> length data" using n lt by simp
  define bm where "bm = HasWritten
         (b\<lparr>buffer := copy_in (take (unat ?w) data) (buffer b) (unat (BeginWrite b))\<rparr>) ?w"
  note t = write_tail [OF inv room src, folded bm_def]
  have wpm: "writePos bm = vsize b"
    by (simp add: t(5) WritableBytes_def)
  have uv: "unat (vsize b) = length (buffer b)" using rw by (simp add: unat_vsize)
  have bufm: "buffer bm = take (unat (writePos b)) (buffer b) @ take (unat ?w) data"
    using room src w rw
    by (simp add: bm_def HasWritten_def BeginWrite_def BeginPtr_def copy_in_eq)
  have bm_eq: "bm = (b\<lparr>buffer := copy_in (take (unat ?w) data) (buffer b)
                        (unat (BeginPtr b + writePos b))\<rparr>)
                \<lparr>writePos := vsize (b\<lparr>buffer := copy_in (take (unat ?w) data) (buffer b)
                        (unat (BeginPtr b + writePos b))\<rparr>)\<rparr>"
    by (simp add: bm_def HasWritten_def BeginWrite_def vsize_def length_copy_in WritableBytes_def)
  have rf: "ReadFd b saveErrno (len, err, data) =
              (case Append bm (drop (unat ?w) data) ?m of
                 Inl e \<Rightarrow> Inl e | Inr b1 \<Rightarrow> Inr (b1, saveErrno, len))"
    using nonneg big by (simp add: ReadFd_unfold [OF inv] Let_def bm_eq [symmetric])
  have um: "unat ?m = unat len - unat ?w"
    using lt by (simp add: unat_sub word_le_nat_alt)
  have "unat ?m = length (drop (unat ?w) data)" "unat ?m \<le> buff_size"
    using n um cap by simp_all
  with rf t wpm uv bufm show ?thesis by auto
qed

lemma ReadFd_overflow:
  assumes inv: "Buffer_inv b"
    and ok: "readv_ok b (len, err, data)"
    and nonneg: "0 \<le> sint len"
    and big: "\<not> len \<le> WritableBytes b"
    and fits: "PrependableBytes b < len - WritableBytes b \<longrightarrow>
               length (buffer b) + unat (len - WritableBytes b) + 1 \<le> max_size"
  shows "\<exists>bm b'. ReadFd b saveErrno (len, err, data) = Inr (b', saveErrno, len) \<and>
           Buffer_inv b' \<and> ReadableBytes b' = ReadableBytes b + len \<and>
           readable_bytes b' = readable_bytes b @ data \<and>
           readPos bm = readPos b \<and> writePos bm = vsize b \<and>
           buffer bm = take (unat (writePos b)) (buffer b) @ take (unat (WritableBytes b)) data \<and>
           Append bm (drop (unat (WritableBytes b)) data) (len - WritableBytes b) = Inr b'"
proof -
  let ?w = "WritableBytes b"
  let ?m = "len - ?w"
  from ReadFd_tail_filled [OF inv ok nonneg big, of saveErrno] obtain bm where
    rf: "ReadFd b saveErrno (len, err, data) =
              (case Append bm (drop (unat ?w) data) ?m of
                 Inl e \<Rightarrow> Inl e | Inr b1 \<Rightarrow> Inr (b1, saveErrno, len))"
    and invm: "Buffer_inv bm" and rpm: "readPos bm = readPos b" and wpm: "writePos bm = vsize b"
    and uwm: "unat (writePos bm) = length (buffer b)"
    and lm: "length (buffer bm) = length (buffer b)"
    and bufm: "buffer bm = take (unat (writePos b)) (buffer b) @ take (unat ?w) data"
    and rbm: "readable_bytes bm = readable_bytes b @ take (unat ?w) data"
    and rdm: "ReadableBytes bm = ReadableBytes b + ?w"
    and um: "unat ?m = length (drop (unat ?w) data)"
    by blast
  have src': "unat ?m \<le> length (drop (unat ?w) data)" using um by simp
  have "WritableBytes bm = 0"
    by (simp add: WritableBytes_def vsize_def lm wpm)
  then have fits': "WritableBytes bm + PrependableBytes bm < ?m \<longrightarrow>
               unat (writePos bm) + unat ?m + 1 \<le> max_size"
    using fits by (simp add: PrependableBytes_def rpm uwm)
  from Append_returns [OF invm src' fits'] obtain b' where
    a: "Append bm (drop (unat ?w) data) ?m = Inr b'" and inv': "Buffer_inv b'"
    and rb: "readable_bytes b' = readable_bytes bm @ take (unat ?m) (drop (unat ?w) data)"
    and rd: "ReadableBytes b' = ReadableBytes bm + ?m"
    by blast
  have rb': "readable_bytes b' = readable_bytes b @ data"
    using rb rbm um by simp
  have rd': "ReadableBytes b' = ReadableBytes b + len"
    using rd rdm by simp
  from rf a inv' rb' rd' rpm wpm bufm show ?thesis by auto
qed

text \<open>
  The one way for the call not to return: the bytes left in the scratch array need a
  store larger than \<open>max_size()\<close>, and the vector throws.
\<close>

lemma ReadFd_throws:
  assumes inv: "Buffer_inv b"
    and ok: "readv_ok b (len, err, data)"
    and nonneg: "0 \<le> sint len"
    and big: "\<not> len \<le> WritableBytes b"
    and grow: "PrependableBytes b < len - WritableBytes b"
    and toobig: "max_size < length (buffer b) + unat (len - WritableBytes b) + 1"
  shows "ReadFd b saveErrno (len, err, data) = Inl LengthError"
proof -
  let ?w = "WritableBytes b"
  let ?m = "len - ?w"
  from ReadFd_tail_filled [OF inv ok nonneg big, of saveErrno] obtain bm where
    rf: "ReadFd b saveErrno (len, err, data) =
              (case Append bm (drop (unat ?w) data) ?m of
                 Inl e \<Rightarrow> Inl e | Inr b1 \<Rightarrow> Inr (b1, saveErrno, len))"
    and invm: "Buffer_inv bm" and rpm: "readPos bm = readPos b" and wpm: "writePos bm = vsize b"
    and uwm: "unat (writePos bm) = length (buffer b)"
    and lm: "length (buffer bm) = length (buffer b)"
    and cap: "unat ?m \<le> buff_size"
    by blast
  have w0: "WritableBytes bm = 0"
    by (simp add: WritableBytes_def vsize_def lm wpm)
  have "?m \<noteq> 0" using big by auto
  then have pos: "0 < ?m" by (simp add: word_greater_zero_iff)
  have "length (buffer b) \<le> max_size" using inv by (simp add: Buffer_inv_def)
  then have "unat (writePos bm) + unat ?m < 2 ^ LENGTH(64)"
    using cap uwm by (simp add: max_size_def buff_size_def)
  then have s1: "unat (writePos bm + ?m) = unat (writePos bm) + unat ?m"
    by (simp only: unat_add_lem)
  have "unat (writePos bm + ?m) + unat (1 :: 64 word) < 2 ^ LENGTH(64)"
    using \<open>length (buffer b) \<le> max_size\<close> cap uwm s1 by (simp add: max_size_def buff_size_def)
  then have "unat (writePos bm + ?m + 1) = unat (writePos bm + ?m) + unat (1 :: 64 word)"
    by (simp only: unat_add_lem)
  with s1 uwm have "unat (writePos bm + ?m + 1) = length (buffer b) + unat ?m + 1" by simp
  with toobig have "resize (buffer bm) (writePos bm + ?m + 1) = Inl LengthError"
    by (simp add: resize_def)
  then have "MakeSpace bm ?m = Inl LengthError"
    using grow by (simp add: MakeSpace_def w0 PrependableBytes_def rpm)
  then have "EnsureWriteable bm ?m = Inl LengthError"
    using pos by (simp add: EnsureWriteable_def w0)
  then show ?thesis by (simp add: rf Append_def)
qed

text \<open>
  C1. On a buffer that satisfies the invariant, let the one \<open>readv\<close> call of \<open>ReadFd\<close>
  deliver \<open>n \<ge> 0\<close> bytes (at most \<open>WritableBytes() + 65535\<close>, the room of the two
  \<open>iovec\<close>s). Then \<open>ReadFd\<close> returns \<open>n\<close>, \<open>ReadableBytes()\<close> has grown by exactly \<open>n\<close> and
  the readable bytes are the former ones followed by the \<open>n\<close> delivered bytes. If
  \<open>n \<le> WritableBytes()\<close>, \<open>writePos_\<close> has advanced by \<open>n\<close> and the store has its old size;
  otherwise \<open>writePos_\<close> is set to the end of the store, whose tail the kernel has filled,
  and the remaining \<open>n - WritableBytes()\<close> bytes of the scratch array go through
  \<open>Append\<close>. The one exception is the vector's own: a store within 65536 bytes of
  \<open>max_size()\<close> may be unable to grow, and then \<open>resize\<close> throws.
\<close>

theorem ReadFd_no_loss:
  assumes inv: "Buffer_inv b"
    and ok: "readv_ok b (len, err, data)"
    and nonneg: "0 \<le> sint len"
  shows "(\<exists>b'. ReadFd b saveErrno (len, err, data) = Inr (b', saveErrno, len) \<and>
           Buffer_inv b' \<and>
           ReadableBytes b' = ReadableBytes b + len \<and>
           readable_bytes b' = readable_bytes b @ data \<and>
           (if len \<le> WritableBytes b
            then writePos b' = writePos b + len \<and> readPos b' = readPos b \<and>
                 length (buffer b') = length (buffer b)
            else \<exists>bm. readPos bm = readPos b \<and> writePos bm = vsize b \<and>
                   buffer bm = take (unat (writePos b)) (buffer b) @
                               take (unat (WritableBytes b)) data \<and>
                   Append bm (drop (unat (WritableBytes b)) data) (len - WritableBytes b) =
                     Inr b')) \<or>
         (ReadFd b saveErrno (len, err, data) = Inl LengthError \<and>
          max_size < length (buffer b) + buff_size + 1)"
proof (cases "len \<le> WritableBytes b")
  case True
  with ReadFd_fits [OF inv ok nonneg True, of saveErrno] show ?thesis by auto
next
  case False
  let ?m = "len - WritableBytes b"
  show ?thesis
  proof (cases "PrependableBytes b < ?m \<and> max_size < length (buffer b) + unat ?m + 1")
    case True
    then have "ReadFd b saveErrno (len, err, data) = Inl LengthError"
      using ReadFd_throws [OF inv ok nonneg False] by simp
    moreover have "unat ?m \<le> buff_size"
      using ReadFd_tail_filled [OF inv ok nonneg False, of saveErrno] by blast
    ultimately show ?thesis using True by simp
  next
    case no: False
    then have "PrependableBytes b < ?m \<longrightarrow> length (buffer b) + unat ?m + 1 \<le> max_size"
      by auto
    with ReadFd_overflow [OF inv ok nonneg False this, of saveErrno] False show ?thesis
      by auto
  qed
qed

theorem ReadFd_no_loss_witness:
  "Buffer_inv \<lparr>buffer = ''ab..'', readPos = 0, writePos = 2\<rparr> \<and>
   readv_ok \<lparr>buffer = ''ab..'', readPos = 0, writePos = 2\<rparr> (5, 0, ''cdefg'') \<and>
   readable_bytes \<lparr>buffer = ''ab..'', readPos = 0, writePos = 2\<rparr> = ''ab'' \<and>
   WritableBytes \<lparr>buffer = ''ab..'', readPos = 0, writePos = 2\<rparr> = 2 \<and>
   (\<exists>b'. ReadFd \<lparr>buffer = ''ab..'', readPos = 0, writePos = 2\<rparr> 0 (5, 0, ''cdefg'') =
           Inr (b', 0, 5) \<and>
         ReadableBytes b' = 7 \<and> readable_bytes b' = ''abcdefg'' \<and> length (buffer b') = 8) \<and>
   (\<exists>b'. ReadFd \<lparr>buffer = ''ab..'', readPos = 0, writePos = 2\<rparr> 0 (1, 0, ''c'') =
           Inr (b', 0, 1) \<and>
         ReadableBytes b' = 3 \<and> readable_bytes b' = ''abc'' \<and> length (buffer b') = 4)"
proof -
  let ?b = "\<lparr>buffer = ''ab..'', readPos = 0, writePos = 2\<rparr>"
  have inv: "Buffer_inv ?b" by (simp add: Buffer_inv_def max_size_def)
  have w: "WritableBytes ?b = 2" by (simp add: WritableBytes_def vsize_def)
  have rb: "readable_bytes ?b = ''ab''" by (simp add: readable_bytes_def)
  have rd: "ReadableBytes ?b = 2" by (simp add: ReadableBytes_def)
  have ok5: "readv_ok ?b (5, 0, ''cdefg'')" and ok1: "readv_ok ?b (1, 0, ''c'')"
    by (simp_all add: readv_ok_def w buff_size_def)
  have n5: "0 \<le> sint (5 :: ssize_t)" and n1: "0 \<le> sint (1 :: ssize_t)" by simp_all
  have fits: "\<not> max_size < length (buffer ?b) + buff_size + 1"
    by (simp add: buff_size_def max_size_def)
  from ReadFd_no_loss [OF inv ok5 n5, of 0] fits obtain b5 where
    r5: "ReadFd ?b 0 (5, 0, ''cdefg'') = Inr (b5, 0, 5)"
    and p5: "ReadableBytes b5 = ReadableBytes ?b + 5" "readable_bytes b5 = readable_bytes ?b @ ''cdefg''"
    by blast
  from ReadFd_no_loss [OF inv ok1 n1, of 0] fits obtain b1 where
    r1: "ReadFd ?b 0 (1, 0, ''c'') = Inr (b1, 0, 1)"
    and p1: "ReadableBytes b1 = ReadableBytes ?b + 1" "readable_bytes b1 = readable_bytes ?b @ ''c''"
    by blast
  have "b5 = \<lparr>buffer = ''abcdefg'' @ [CHR 0x00], readPos = 0, writePos = 7\<rparr>"
    using r5
    by (simp add: ReadFd_def mem_write_def Append_def HasWritten_def BeginWrite_def eval_defs
        replicate_unfold)
  then have l5: "length (buffer b5) = 8" by simp
  have "b1 = \<lparr>buffer = ''abc.'', readPos = 0, writePos = 3\<rparr>"
    using r1
    by (simp add: ReadFd_def mem_write_def Append_def HasWritten_def BeginWrite_def eval_defs)
  then have l1: "length (buffer b1) = 4" by simp
  from inv ok5 rb w r5 p5 l5 r1 p1 l1 rd show ?thesis by simp
qed

section \<open>Writing to a descriptor\<close>

lemma WriteFd_call:
  assumes inv: "Buffer_inv b"
  shows "WriteFd b saveErrno wr =
           (case wr (readable_bytes b) of (len, err) \<Rightarrow>
              if sint len < 0 then Inr (b, err, len)
              else Inr (b\<lparr>readPos := readPos b + len\<rparr>, saveErrno, len))"
  using mem_read_readable [OF inv] by (simp add: WriteFd_def Let_def)

lemma retire:
  assumes inv: "Buffer_inv b"
    and le: "unat len \<le> length (readable_bytes b)"
  defines "b' \<equiv> b\<lparr>readPos := readPos b + len\<rparr>"
  shows "Buffer_inv b'"
    and "ReadableBytes b' = ReadableBytes b - len"
    and "unat (ReadableBytes b') = unat (ReadableBytes b) - unat len"
    and "readable_bytes b' = drop (unat len) (readable_bytes b)"
proof -
  let ?r = "unat (readPos b)" and ?w = "unat (writePos b)"
  have rw: "?r \<le> ?w" "?w \<le> length (buffer b)" "length (buffer b) \<le> max_size"
    using inv by (simp_all add: Buffer_inv_def)
  have le': "unat len \<le> ?w - ?r"
    using le readable_bytes_length [OF inv] inv_readable [OF inv] by simp
  have rl: "unat (readPos b + len) = ?r + unat len"
    using le' rw by (intro unat_add_fits) simp
  show inv': "Buffer_inv b'"
    using rw le' by (simp add: Buffer_inv_def b'_def rl)
  show "ReadableBytes b' = ReadableBytes b - len"
    by (simp add: ReadableBytes_def b'_def)
  show "unat (ReadableBytes b') = unat (ReadableBytes b) - unat len"
    using inv_readable [OF inv'] inv_readable [OF inv] by (simp add: b'_def rl)
  have "readable_bytes b' = take (?w - (?r + unat len)) (drop (?r + unat len) (buffer b))"
    by (simp add: readable_bytes_def b'_def rl)
  also have "\<dots> = drop (unat len) (take (?w - ?r) (drop ?r (buffer b)))"
    by (simp add: drop_take add.commute)
  finally show "readable_bytes b' = drop (unat len) (readable_bytes b)"
    by (simp add: readable_bytes_def)
qed

lemma WriteFd_repeat_retires:
  assumes "Buffer_inv b"
    and "\<forall>wr \<in> set wrs. \<forall>bytes. write_ok bytes (wr bytes)"
  shows "\<exists>b' e' lens. WriteFd_repeat b saveErrno wrs = Inr (b', e', lens) \<and>
           length lens = length wrs \<and> Buffer_inv b' \<and>
           retired lens \<le> unat (ReadableBytes b) \<and>
           unat (ReadableBytes b') = unat (ReadableBytes b) - retired lens \<and>
           readable_bytes b' = drop (retired lens) (readable_bytes b)"
  using assms
proof (induction wrs arbitrary: b saveErrno)
  case Nil
  then show ?case by simp
next
  case (Cons wr wrs)
  obtain len err where r: "wr (readable_bytes b) = (len, err)" by (cases "wr (readable_bytes b)")
  have ok: "write_ok (readable_bytes b) (len, err)"
    using Cons.prems(2) r by (metis list.set_intros(1))
  have rest: "\<forall>wr \<in> set wrs. \<forall>bytes. write_ok bytes (wr bytes)"
    using Cons.prems(2) by simp
  note rl = readable_bytes_length [OF Cons.prems(1)]
  show ?case
  proof (cases "sint len < 0")
    case True
    then have w: "WriteFd b saveErrno wr = Inr (b, err, len)"
      using WriteFd_call [OF Cons.prems(1), of saveErrno wr] r by simp
    from Cons.IH [OF Cons.prems(1) rest, of err] obtain b' e' lens where
      "WriteFd_repeat b err wrs = Inr (b', e', lens)" "length lens = length wrs" "Buffer_inv b'"
      "retired lens \<le> unat (ReadableBytes b)"
      "unat (ReadableBytes b') = unat (ReadableBytes b) - retired lens"
      "readable_bytes b' = drop (retired lens) (readable_bytes b)"
      by blast
    with w True show ?thesis by simp
  next
    case False
    let ?b1 = "b\<lparr>readPos := readPos b + len\<rparr>"
    have w: "WriteFd b saveErrno wr = Inr (?b1, saveErrno, len)"
      using WriteFd_call [OF Cons.prems(1), of saveErrno wr] r False by simp
    have le: "unat len \<le> length (readable_bytes b)"
      using ok False by (simp add: write_ok_def)
    note p = retire [OF Cons.prems(1) le]
    from Cons.IH [OF p(1) rest, of saveErrno] obtain b' e' lens where
      q: "WriteFd_repeat ?b1 saveErrno wrs = Inr (b', e', lens)" "length lens = length wrs"
      "Buffer_inv b'"
      "retired lens \<le> unat (ReadableBytes ?b1)"
      "unat (ReadableBytes b') = unat (ReadableBytes ?b1) - retired lens"
      "readable_bytes b' = drop (retired lens) (readable_bytes ?b1)"
      by blast
    have "retired (len # lens) \<le> unat (ReadableBytes b)"
      using q(4) p(3) le rl False by simp
    moreover have "unat (ReadableBytes b') = unat (ReadableBytes b) - retired (len # lens)"
      using q(5) p(3) False by simp
    moreover have "readable_bytes b' = drop (retired (len # lens)) (readable_bytes b)"
      using q(6) p(4) False by (simp add: add.commute)
    ultimately show ?thesis using w q(1-3) by simp
  qed
qed

text \<open>
  C5. On a buffer that satisfies the invariant, \<open>WriteFd\<close> offers the descriptor the
  readable region, the \<open>ReadableBytes()\<close> bytes at \<open>Peek()\<close>, in one \<open>write\<close>. If that
  returns a negative value, the error slot holds \<open>errno\<close>, the value is returned and the
  buffer is unchanged. If it returns \<open>n \<ge> 0\<close> (at most the count offered, possibly less),
  \<open>n\<close> is returned and \<open>readPos_\<close> advances by exactly \<open>n\<close>: the first \<open>n\<close> readable bytes
  are retired and the others stay readable. Calling again retires what further calls
  return, and once the returned counts add up to the original readable length
  \<open>ReadableBytes()\<close> is 0.
\<close>

theorem WriteFd_retires:
  assumes inv: "Buffer_inv b"
    and ok: "\<forall>wr \<in> set (wr # wrs). \<forall>bytes. write_ok bytes (wr bytes)"
  shows "mem_read (buffer b) (Peek b) (ReadableBytes b) = Inr (readable_bytes b) \<and>
         (case wr (readable_bytes b) of (len, err) \<Rightarrow>
            if sint len < 0 then WriteFd b saveErrno wr = Inr (b, err, len)
            else WriteFd b saveErrno wr = Inr (b\<lparr>readPos := readPos b + len\<rparr>, saveErrno, len) \<and>
                 unat (ReadableBytes (b\<lparr>readPos := readPos b + len\<rparr>)) =
                   unat (ReadableBytes b) - unat len \<and>
                 readable_bytes (b\<lparr>readPos := readPos b + len\<rparr>) =
                   drop (unat len) (readable_bytes b)) \<and>
         (\<exists>b' e' lens. WriteFd_repeat b saveErrno (wr # wrs) = Inr (b', e', lens) \<and>
            length lens = length (wr # wrs) \<and>
            unat (ReadableBytes b') = unat (ReadableBytes b) - retired lens \<and>
            readable_bytes b' = drop (retired lens) (readable_bytes b) \<and>
            (retired lens = unat (ReadableBytes b) \<longrightarrow> ReadableBytes b' = 0))"
proof (intro conjI)
  show "mem_read (buffer b) (Peek b) (ReadableBytes b) = Inr (readable_bytes b)"
    using inv by (rule mem_read_readable)
next
  obtain len err where r: "wr (readable_bytes b) = (len, err)" by (cases "wr (readable_bytes b)")
  have "write_ok (readable_bytes b) (len, err)"
    using ok r by (metis list.set_intros(1))
  then have le: "unat len \<le> length (readable_bytes b)" if "\<not> sint len < 0"
    using that by (simp add: write_ok_def)
  show "case wr (readable_bytes b) of (len, err) \<Rightarrow>
            if sint len < 0 then WriteFd b saveErrno wr = Inr (b, err, len)
            else WriteFd b saveErrno wr = Inr (b\<lparr>readPos := readPos b + len\<rparr>, saveErrno, len) \<and>
                 unat (ReadableBytes (b\<lparr>readPos := readPos b + len\<rparr>)) =
                   unat (ReadableBytes b) - unat len \<and>
                 readable_bytes (b\<lparr>readPos := readPos b + len\<rparr>) =
                   drop (unat len) (readable_bytes b)"
    using WriteFd_call [OF inv, of saveErrno wr] r retire(3,4) [OF inv le]
    by (simp add: r)
next
  from WriteFd_repeat_retires [OF inv ok, of saveErrno] obtain b' e' lens where
    q: "WriteFd_repeat b saveErrno (wr # wrs) = Inr (b', e', lens)"
    "length lens = length (wr # wrs)"
    "unat (ReadableBytes b') = unat (ReadableBytes b) - retired lens"
    "readable_bytes b' = drop (retired lens) (readable_bytes b)"
    by blast
  have "ReadableBytes b' = 0" if "retired lens = unat (ReadableBytes b)"
    using q(3) that by (simp add: unat_eq_zero)
  with q show "\<exists>b' e' lens. WriteFd_repeat b saveErrno (wr # wrs) = Inr (b', e', lens) \<and>
            length lens = length (wr # wrs) \<and>
            unat (ReadableBytes b') = unat (ReadableBytes b) - retired lens \<and>
            readable_bytes b' = drop (retired lens) (readable_bytes b) \<and>
            (retired lens = unat (ReadableBytes b) \<longrightarrow> ReadableBytes b' = 0)"
    by blast
qed

lemma unat_of_nat_le: "unat (word_of_nat n :: 64 word) \<le> n"
  by (simp add: unat_of_nat)

theorem WriteFd_retires_witness:
  "Buffer_inv \<lparr>buffer = replicate 100 (CHR ''a''), readPos = 0, writePos = 100\<rparr> \<and>
   ReadableBytes \<lparr>buffer = replicate 100 (CHR ''a''), readPos = 0, writePos = 100\<rparr> = 100 \<and>
   WriteFd \<lparr>buffer = replicate 100 (CHR ''a''), readPos = 0, writePos = 100\<rparr> 0
       (\<lambda>bytes. (word_of_nat (min 5 (length bytes)), 0)) =
     Inr (\<lparr>buffer = replicate 100 (CHR ''a''), readPos = 5, writePos = 100\<rparr>, 0, 5) \<and>
   ReadableBytes \<lparr>buffer = replicate 100 (CHR ''a''), readPos = 5, writePos = 100\<rparr> = 95 \<and>
   WriteFd_repeat \<lparr>buffer = replicate 100 (CHR ''a''), readPos = 0, writePos = 100\<rparr> 0
       [\<lambda>bytes. (word_of_nat (min 5 (length bytes)), 0),
        \<lambda>bytes. (word_of_nat (length bytes), 0)] =
     Inr (\<lparr>buffer = replicate 100 (CHR ''a''), readPos = 100, writePos = 100\<rparr>, 0, [5, 95]) \<and>
   ReadableBytes \<lparr>buffer = replicate 100 (CHR ''a''), readPos = 100, writePos = 100\<rparr> = 0 \<and>
   WriteFd \<lparr>buffer = replicate 100 (CHR ''a''), readPos = 0, writePos = 100\<rparr> 0
       (\<lambda>bytes. (- 1, 32)) =
     Inr (\<lparr>buffer = replicate 100 (CHR ''a''), readPos = 0, writePos = 100\<rparr>, 32, - 1)"
proof -
  let ?b = "\<lparr>buffer = replicate 100 (CHR ''a''), readPos = 0, writePos = 100\<rparr>"
  let ?wr5 = "\<lambda>bytes :: string. (word_of_nat (min 5 (length bytes)) :: ssize_t, 0 :: 32 word)"
  let ?wrall = "\<lambda>bytes :: string. (word_of_nat (length bytes) :: ssize_t, 0 :: 32 word)"
  have inv: "Buffer_inv ?b" by (simp add: Buffer_inv_def max_size_def)
  have "unat (word_of_nat (min 5 (length bytes)) :: ssize_t) \<le> length bytes"
    for bytes :: string
    using unat_of_nat_le [of "min 5 (length bytes)"] by simp
  then have ok: "\<forall>wr \<in> set [?wr5, ?wrall]. \<forall>bytes. write_ok bytes (wr bytes)"
    using unat_of_nat_le by (simp add: write_ok_def)
  have rb: "readable_bytes ?b = replicate 100 (CHR ''a'')"
    by (simp add: readable_bytes_def)
  note t = WriteFd_retires [OF inv ok, of 0, unfolded rb]
  from t have first: "WriteFd ?b 0 ?wr5 = Inr (?b\<lparr>readPos := 5\<rparr>, 0, 5)"
    by simp
  have okf: "\<forall>wr \<in> set [\<lambda>bytes :: string. (- 1 :: ssize_t, 32 :: 32 word)].
               \<forall>bytes. write_ok bytes (wr bytes)"
    by (simp add: write_ok_def)
  from WriteFd_retires [OF inv okf, of 0]
  have failed: "WriteFd ?b 0 (\<lambda>bytes. (- 1, 32)) = Inr (?b, 32, - 1)"
    by simp
  have ev: "WriteFd_repeat ?b 0 [?wr5, ?wrall] = Inr (?b\<lparr>readPos := 100\<rparr>, 0, [5, 95])"
    by (simp add: WriteFd_def mem_read_def Peek_def BeginPtr_def ReadableBytes_def)
  from inv first ev failed show ?thesis by (simp add: ReadableBytes_def)
qed

section \<open>The invariant along sequences of calls\<close>

lemma Buffer_inv_fresh: "Buffer c = Inr b \<Longrightarrow> Buffer_inv b"
  by (auto simp: Buffer_def Let_def Buffer_inv_def split: if_splits)

lemma Retrieve_inv:
  assumes inv: "Buffer_inv b" and r: "Retrieve b len = Inr b'"
  shows "Buffer_inv b'"
proof -
  from r have le: "len \<le> ReadableBytes b" and b': "b' = b\<lparr>readPos := readPos b + len\<rparr>"
    by (auto simp: Retrieve_def split: if_splits)
  from le have "unat len \<le> length (readable_bytes b)"
    using readable_bytes_length [OF inv] by (simp add: word_le_nat_alt)
  from retire(1) [OF inv this] b' show ?thesis by simp
qed

lemma RetrieveUntil_inv:
  "Buffer_inv b \<Longrightarrow> RetrieveUntil b end = Inr b' \<Longrightarrow> Buffer_inv b'"
  by (auto simp: RetrieveUntil_def split: if_splits intro: Retrieve_inv)

lemma length_bzero: "length (bzero v n) = length v"
  by (simp add: bzero_def)

lemma RetrieveAll_inv: "Buffer_inv b \<Longrightarrow> Buffer_inv (RetrieveAll b)"
  by (simp add: Buffer_inv_def RetrieveAll_def length_bzero)

lemma RetrieveAllToStr_inv:
  "Buffer_inv b \<Longrightarrow> RetrieveAllToStr b = Inr (str, b') \<Longrightarrow> Buffer_inv b'"
  by (auto simp: RetrieveAllToStr_def RetrieveAll_inv split: sum.splits)

lemma HasWritten_inv:
  assumes inv: "Buffer_inv b" and le: "len \<le> WritableBytes b"
  shows "Buffer_inv (HasWritten b len)"
proof -
  have "unat len \<le> length (buffer b) - unat (writePos b)"
    using le inv_writable [OF inv] by (simp add: word_le_nat_alt)
  then have room: "unat (writePos b) + unat len \<le> length (buffer b)"
    using inv unfolding Buffer_inv_def by arith
  then have "unat (writePos b + len) = unat (writePos b) + unat len"
    using inv by (intro unat_add_fits) (simp add: Buffer_inv_def)
  with room inv show ?thesis by (simp add: Buffer_inv_def HasWritten_def)
qed

text \<open>
  Whatever the length, a returning \<open>EnsureWriteable\<close> leaves the cursors in order and
  the store no larger than \<open>max_size()\<close>.
\<close>

lemma EnsureWriteable_weak:
  assumes inv: "Buffer_inv b" and r: "EnsureWriteable b len = Inr b1"
  shows "unat (readPos b1) \<le> unat (writePos b1) \<and> length (buffer b1) \<le> max_size"
proof (cases "WritableBytes b < len")
  case False
  with EnsureWriteable_cases [OF r] inv show ?thesis by (simp add: Buffer_inv_def)
next
  case True
  with EnsureWriteable_cases [OF r] have m: "MakeSpace b len = Inr b1" by simp
  show ?thesis
  proof (cases "WritableBytes b + PrependableBytes b < len")
    case False
    from MakeSpace_compact_post(5) [OF inv False m] show ?thesis
      by (simp add: Buffer_inv_def)
  next
    case True
    with m inv show ?thesis
      by (auto simp: MakeSpace_def resize_def Buffer_inv_def split: if_splits)
  qed
qed

lemma Append_inv:
  assumes inv: "Buffer_inv b" and r: "Append b str len = Inr b'"
  shows "Buffer_inv b'"
proof -
  from r obtain b1 where e: "EnsureWriteable b len = Inr b1"
    by (auto simp: Append_def split: sum.splits)
  from r e have src: "unat len \<le> length str"
    and room: "unat (writePos b1) + unat len \<le> length (buffer b1)"
    and b': "b' = HasWritten
         (b1\<lparr>buffer := copy_in (take (unat len) str) (buffer b1) (unat (BeginWrite b1))\<rparr>) len"
    by (auto simp: Append_def BeginWrite_def BeginPtr_def split: if_splits)
  from EnsureWriteable_weak [OF inv e] room have inv1: "Buffer_inv b1"
    by (simp add: Buffer_inv_def)
  from write_tail(1) [OF inv1 room src] b' show ?thesis by simp
qed

lemma EnsureWriteable_inv:
  assumes inv: "Buffer_inv b" and small: "unat len \<le> max_size"
    and r: "EnsureWriteable b len = Inr b1"
  shows "Buffer_inv b1"
proof (cases "WritableBytes b < len")
  case False
  with EnsureWriteable_cases [OF r] inv show ?thesis by simp
next
  case True
  with EnsureWriteable_cases [OF r] have m: "MakeSpace b len = Inr b1" by simp
  show ?thesis
  proof (cases "WritableBytes b + PrependableBytes b < len")
    case False
    from MakeSpace_compact_post(5) [OF inv False m] show ?thesis .
  next
    case grow: True
    have wp: "unat (writePos b) \<le> max_size" using inv by (simp add: Buffer_inv_def)
    have a: "unat (writePos b) + unat len < 2 ^ LENGTH(64)"
      using wp small by (simp add: max_size_def)
    then have s1: "unat (writePos b + len) = unat (writePos b) + unat len"
      by (simp only: unat_add_lem)
    have "unat (writePos b + len) + unat (1 :: 64 word) < 2 ^ LENGTH(64)"
      using wp small s1 by (simp add: max_size_def)
    then have "unat (writePos b + len + 1) = unat (writePos b + len) + unat (1 :: 64 word)"
      by (simp only: unat_add_lem)
    with s1 have n: "unat (writePos b + len + 1) = unat (writePos b) + unat len + 1" by simp
    from m grow have "unat (writePos b + len + 1) \<le> max_size"
      by (auto simp: MakeSpace_def resize_def split: if_splits)
    with n have fits: "unat (writePos b) + unat len + 1 \<le> max_size" by simp
    from MakeSpace_grow_post(6) [OF inv grow fits m] show ?thesis .
  qed
qed

lemma ReadFd_inv:
  assumes inv: "Buffer_inv b" and r: "ReadFd b saveErrno rv = Inr (b', e', ret)"
  shows "Buffer_inv b'"
proof -
  obtain len err data where rv: "rv = (len, err, data)" by (cases rv)
  let ?w = "WritableBytes b"
  let ?b0 = "b\<lparr>buffer := copy_in (take (unat ?w) data) (buffer b)
                         (unat (BeginPtr b + writePos b))\<rparr>"
  have inv0: "Buffer_inv ?b0"
    using inv by (simp add: Buffer_inv_def length_copy_in)
  have w0: "WritableBytes ?b0 = ?w"
    by (simp add: WritableBytes_def vsize_def length_copy_in)
  consider (neg) "sint len < 0" | (fit) "\<not> sint len < 0" "len \<le> ?w"
    | (over) "\<not> sint len < 0" "\<not> len \<le> ?w"
    by blast
  then show ?thesis
  proof cases
    case neg
    with r rv have "b' = ?b0" by (auto simp: ReadFd_unfold [OF inv] Let_def)
    with inv0 show ?thesis by simp
  next
    case fit
    with r rv have "b' = HasWritten ?b0 len"
      by (auto simp: ReadFd_unfold [OF inv] Let_def HasWritten_def)
    moreover have "len \<le> WritableBytes ?b0" using fit w0 by simp
    ultimately show ?thesis using HasWritten_inv [OF inv0] by simp
  next
    case over
    let ?bm = "?b0\<lparr>writePos := vsize ?b0\<rparr>"
    have "unat (vsize ?b0) = length (buffer ?b0)"
      using inv0 by (simp add: unat_vsize Buffer_inv_def)
    then have invm: "Buffer_inv ?bm"
      using inv0 by (simp add: Buffer_inv_def)
    from r rv over have "Append ?bm (drop (unat ?w) data) (len - ?w) = Inr b'"
      by (auto simp: ReadFd_unfold [OF inv] Let_def split: sum.splits)
    from Append_inv [OF invm this] show ?thesis .
  qed
qed

lemma WriteFd_inv:
  assumes inv: "Buffer_inv b" and ok: "write_ok (readable_bytes b) (wr (readable_bytes b))"
    and r: "WriteFd b saveErrno wr = Inr (b', e', ret)"
  shows "Buffer_inv b'"
proof -
  obtain len err where w: "wr (readable_bytes b) = (len, err)" by (cases "wr (readable_bytes b)")
  show ?thesis
  proof (cases "sint len < 0")
    case True
    with r w inv show ?thesis by (auto simp: WriteFd_call [OF inv])
  next
    case False
    with ok w have "unat len \<le> length (readable_bytes b)" by (simp add: write_ok_def)
    from retire(1) [OF inv this] r w False show ?thesis by (auto simp: WriteFd_call [OF inv])
  qed
qed

lemma do_call_inv:
  assumes "Buffer_inv b" and "honours b c" and "do_call b c = Inr b'"
  shows "Buffer_inv b'"
proof (cases c)
  case (Call_Retrieve len)
  with assms show ?thesis by (auto intro: Retrieve_inv)
next
  case (Call_RetrieveUntil p)
  with assms show ?thesis by (auto intro: RetrieveUntil_inv)
next
  case Call_RetrieveAll
  with assms show ?thesis by (auto intro: RetrieveAll_inv)
next
  case Call_RetrieveAllToStr
  with assms show ?thesis by (auto split: sum.splits intro: RetrieveAllToStr_inv)
next
  case (Call_HasWritten len)
  with assms show ?thesis by (auto intro: HasWritten_inv)
next
  case (Call_Append str len)
  with assms show ?thesis by (auto intro: Append_inv)
next
  case (Call_EnsureWriteable len)
  with assms show ?thesis by (auto intro: EnsureWriteable_inv)
next
  case (Call_ReadFd e rv)
  with assms show ?thesis by (auto split: sum.splits intro: ReadFd_inv)
next
  case (Call_WriteFd e r)
  with assms show ?thesis by (auto split: sum.splits intro: WriteFd_inv)
qed

lemma states_after_inv:
  "Buffer_inv b \<Longrightarrow> all_honour b cs \<Longrightarrow> \<forall>b' \<in> set (states_after b cs). Buffer_inv b'"
proof (induction cs arbitrary: b)
  case Nil
  then show ?case by simp
next
  case (Cons c cs)
  show ?case
  proof (cases "do_call b c")
    case (Inl e)
    then show ?thesis by simp
  next
    case (Inr b1)
    with Cons.prems have inv1: "Buffer_inv b1" and h: "all_honour b1 cs"
      by (auto intro: do_call_inv)
    from Cons.IH [OF inv1 h] inv1 Inr show ?thesis by simp
  qed
qed

text \<open>
  C2, as amended. Start from a constructed buffer and make any sequence of calls of
  \<open>Retrieve\<close>, \<open>RetrieveUntil\<close>, \<open>RetrieveAll\<close>, \<open>RetrieveAllToStr\<close>, \<open>HasWritten\<close>,
  \<open>Append\<close>, \<open>EnsureWriteable\<close>, \<open>ReadFd\<close> and \<open>WriteFd\<close> in which every \<open>HasWritten(len)\<close>
  has \<open>len \<le> WritableBytes()\<close>, every \<open>EnsureWriteable(len)\<close> has \<open>len \<le> max_size()\<close> and
  every \<open>write\<close> returns at most the count it was given. Then
  \<open>0 \<le> readPos_ \<le> writePos_ \<le> buffer_.size()\<close> holds after the construction and after
  every call that returns.
\<close>

theorem invariant_after_every_call:
  assumes "Buffer c = Inr b" and "all_honour b cs"
  shows "Buffer_inv b \<and> (\<forall>b' \<in> set (states_after b cs).
           unat (readPos b') \<le> unat (writePos b') \<and> unat (writePos b') \<le> length (buffer b'))"
proof -
  have inv: "Buffer_inv b" using assms(1) by (rule Buffer_inv_fresh)
  from states_after_inv [OF inv assms(2)] inv show ?thesis
    by (simp add: Buffer_inv_def)
qed

lemmas call_defs = Retrieve_def RetrieveUntil_def RetrieveAll_def RetrieveAllToStr_def
  HasWritten_def Append_def ReadFd_def mem_write_def WriteFd_def BeginWrite_def bzero_def
  write_ok_def

theorem invariant_counterexample:
  "Buffer 4 = Inr \<lparr>buffer = replicate 4 (CHR 0x00), readPos = 0, writePos = 0\<rparr> \<and>
   states_after \<lparr>buffer = replicate 4 (CHR 0x00), readPos = 0, writePos = 0\<rparr> [Call_HasWritten 5] =
     [\<lparr>buffer = replicate 4 (CHR 0x00), readPos = 0, writePos = 5\<rparr>] \<and>
   \<not> unat (writePos \<lparr>buffer = replicate 4 (CHR 0x00), readPos = 0, writePos = 5 :: size_t\<rparr>)
       \<le> length (buffer \<lparr>buffer = replicate 4 (CHR 0x00), readPos = 0 :: size_t, writePos = 5 :: size_t\<rparr>)"
  using Buffer_nonneg [of 4] by (simp add: HasWritten_def)

theorem invariant_after_every_call_witness:
  "Buffer 8 = Inr \<lparr>buffer = replicate 8 (CHR 0x00), readPos = 0, writePos = 0\<rparr> \<and>
   all_honour \<lparr>buffer = replicate 8 (CHR 0x00), readPos = 0, writePos = 0\<rparr>
     [Call_Append ''hello'' 5, Call_Retrieve 2, Call_EnsureWriteable 4, Call_HasWritten 1,
      Call_WriteFd 0 (2, 0), Call_ReadFd 0 (3, 0, ''abc''), Call_RetrieveAllToStr] \<and>
   states_after \<lparr>buffer = replicate 8 (CHR 0x00), readPos = 0, writePos = 0\<rparr>
     [Call_Append ''hello'' 5, Call_Retrieve 2, Call_EnsureWriteable 4, Call_HasWritten 1,
      Call_WriteFd 0 (2, 0), Call_ReadFd 0 (3, 0, ''abc''), Call_RetrieveAllToStr] =
     [\<lparr>buffer = ''hello'' @ replicate 3 (CHR 0x00), readPos = 0, writePos = 5\<rparr>,
      \<lparr>buffer = ''hello'' @ replicate 3 (CHR 0x00), readPos = 2, writePos = 5\<rparr>,
      \<lparr>buffer = ''llolo'' @ replicate 3 (CHR 0x00), readPos = 0, writePos = 3\<rparr>,
      \<lparr>buffer = ''llolo'' @ replicate 3 (CHR 0x00), readPos = 0, writePos = 4\<rparr>,
      \<lparr>buffer = ''llolo'' @ replicate 3 (CHR 0x00), readPos = 2, writePos = 4\<rparr>,
      \<lparr>buffer = ''llolabc'' @ replicate 1 (CHR 0x00), readPos = 2, writePos = 7\<rparr>,
      \<lparr>buffer = replicate 8 (CHR 0x00), readPos = 0, writePos = 0\<rparr>]"
proof -
  let ?b = "\<lparr>buffer = replicate 8 (CHR 0x00), readPos = 0, writePos = 0\<rparr>"
  let ?cs = "[Call_Append ''hello'' 5, Call_Retrieve 2, Call_EnsureWriteable 4, Call_HasWritten 1,
      Call_WriteFd 0 (2, 0), Call_ReadFd 0 (3, 0, ''abc''), Call_RetrieveAllToStr]"
  have c: "Buffer 8 = Inr ?b" using Buffer_nonneg [of 8] by simp
  have h: "all_honour ?b ?cs"
    by (simp add: call_defs eval_defs replicate_unfold)
  from invariant_after_every_call [OF c h] c h show ?thesis
    by (simp add: call_defs eval_defs replicate_unfold)
qed

end
